theory Spec2Isabelle
  imports Complex_Main "HOL-Library.Char_ord" "HOL-Library.List_Lexorder"
    "HOL-Library.Sublist" "HOL-Library.AList"
begin

section \<open>Python strings\<close>

text \<open>
  A Python \<open>str\<close> is modelled as a \<open>string\<close>, a list of characters with code points
  0 to 255. The operations below are the ones the three modules use: \<open>str.lower\<close>,
  \<open>str.strip\<close>, \<open>str.rstrip(chars)\<close>, \<open>str.startswith\<close>, \<open>str.split()\<close>,
  \<open>sep.join\<close> and the comparison \<open>>=\<close>, which Python decides code point by code
  point (the lexicographic order of \<open>List_Lexorder\<close> over \<open>Char_ord\<close>).
\<close>

definition py_isspace :: "char \<Rightarrow> bool" where
  \<comment> \<open>\<open>str.isspace\<close> on one character: tab to carriage return, the four separators
      0x1C to 0x1F, the space, NEL (0x85) and the no-break space (0xA0).\<close>
  "py_isspace c =
     (let n = (of_char c :: nat)
      in (9 \<le> n \<and> n \<le> 13) \<or> (28 \<le> n \<and> n \<le> 32) \<or> n = 133 \<or> n = 160)"

definition py_lower_char :: "char \<Rightarrow> char" where
  \<comment> \<open>\<open>str.lower\<close> on one character: A to Z and the Latin-1 capitals 0xC0 to 0xDE
      (the multiplication sign 0xD7 apart) move up by 32, which sets bit 5.\<close>
  "py_lower_char c =
     (let n = (of_char c :: nat)
      in if (65 \<le> n \<and> n \<le> 90) \<or> (192 \<le> n \<and> n \<le> 222 \<and> n \<noteq> 215)
         then (case c of Char b0 b1 b2 b3 b4 b5 b6 b7 \<Rightarrow> Char b0 b1 b2 b3 b4 True b6 b7)
         else c)"

definition lower :: "string \<Rightarrow> string" where
  "lower s = map py_lower_char s"

definition lstrip :: "string \<Rightarrow> string" where
  "lstrip s = dropWhile py_isspace s"

definition rstrip :: "string \<Rightarrow> string" where
  "rstrip s = rev (dropWhile py_isspace (rev s))"

definition strip :: "string \<Rightarrow> string" where
  "strip s = rstrip (lstrip s)"

definition rstrip_chars :: "string \<Rightarrow> string \<Rightarrow> string" where
  \<comment> \<open>\<open>s.rstrip(chars)\<close>: every trailing character that occurs in \<open>chars\<close> goes.\<close>
  "rstrip_chars chars s = rev (dropWhile (\<lambda>c. c \<in> set chars) (rev s))"

definition startswith :: "string \<Rightarrow> string \<Rightarrow> bool" where
  "startswith s p = (take (length p) s = p)"

function split :: "string \<Rightarrow> string list" where
  \<comment> \<open>\<open>s.split()\<close>: the maximal runs of non-whitespace characters, in order.\<close>
  "split s =
     (case dropWhile py_isspace s of
        [] \<Rightarrow> []
      | c # cs \<Rightarrow> takeWhile (\<lambda>x. \<not> py_isspace x) (c # cs)
                 # split (dropWhile (\<lambda>x. \<not> py_isspace x) cs))"
  by pat_completeness auto
termination
proof (relation "measure length")
  show "wf (measure length)" by simp
next
  fix s :: string and c cs
  assume a: "dropWhile py_isspace s = c # cs"
  have "length (dropWhile (\<lambda>x. \<not> py_isspace x) cs) \<le> length cs"
    by (rule length_dropWhile_le)
  moreover have "length (c # cs) \<le> length s"
    using length_dropWhile_le [of py_isspace s] a by simp
  ultimately show "(dropWhile (\<lambda>x. \<not> py_isspace x) cs, s) \<in> measure length"
    by simp
qed

declare split.simps [simp del]

fun join :: "string \<Rightarrow> string list \<Rightarrow> string" where
  "join sep [] = []"
| "join sep [w] = w"
| "join sep (w # v # ws) = w @ sep @ join sep (v # ws)"

definition truthy :: "string \<Rightarrow> bool" where
  \<comment> \<open>Python's truth value of a string.\<close>
  "truthy s = (s \<noteq> [])"

section \<open>dataforseo\_search: the query builder\<close>

definition query_templates :: "string \<Rightarrow> string list" where
  "query_templates topic =
     [''What are the biggest '' @ topic @ '' trends and what's driving them?'',
      ''Who are the top influencers and brands in '' @ topic @ '' right now?'',
      ''What do experts recommend for '' @ topic @ '' in 2026?'']"

definition depth_count :: "string \<Rightarrow> nat" where
  \<comment> \<open>\<open>{"quick": 1, "default": 2, "deep": 3}.get(depth, 2)\<close>\<close>
  "depth_count depth =
     (if depth = ''quick'' then 1 else if depth = ''default'' then 2
      else if depth = ''deep'' then 3 else 2)"

definition build_structured_queries :: "string \<Rightarrow> string \<Rightarrow> string list" where
  "build_structured_queries topic depth = take (depth_count depth) (query_templates topic)"

section \<open>youtube\_yt: assembling the items, the soft date filter, the sort\<close>

record yt_snippet =
  publishedAt :: "string option"
  snippet_title :: "string option"
  channelTitle :: "string option"

record engagement =
  views :: int
  likes :: int
  comments :: int

record video_item =
  video_id :: string
  v_title :: string
  v_url :: string
  channel_name :: string
  v_date :: "string option"
  engagement :: engagement
  v_relevance :: real
  v_why_relevant :: string

definition empty_snippet :: yt_snippet where
  "empty_snippet = \<lparr>publishedAt = None, snippet_title = None, channelTitle = None\<rparr>"

definition get_or :: "'a option \<Rightarrow> 'a \<Rightarrow> 'a" where
  \<comment> \<open>\<open>d.get(key, default)\<close> for a key that is present (\<open>Some\<close>) or absent.\<close>
  "get_or v d = (case v of None \<Rightarrow> d | Some x \<Rightarrow> x)"

definition date_str :: "string \<Rightarrow> string option" where
  \<comment> \<open>\<open>published[:10] if len(published) >= 10 else None\<close>\<close>
  "date_str published = (if 10 \<le> length published then Some (take 10 published) else None)"

definition build_item ::
  "(string \<rightharpoonup> yt_snippet) \<Rightarrow> (string \<rightharpoonup> engagement) \<Rightarrow> string \<Rightarrow> string \<Rightarrow> video_item" where
  "build_item all_snippets stats core_topic vid =
     (let snippet = get_or (all_snippets vid) empty_snippet;
          st = get_or (stats vid) \<lparr>views = 0, likes = 0, comments = 0\<rparr>;
          published = get_or (publishedAt snippet) []
      in \<lparr>video_id = vid,
          v_title = get_or (snippet_title snippet) [],
          v_url = ''https://www.youtube.com/watch?v='' @ vid,
          channel_name = get_or (channelTitle snippet) [],
          v_date = date_str published,
          engagement = \<lparr>views = views st, likes = likes st, comments = comments st\<rparr>,
          v_relevance = 0.7,
          v_why_relevant = ''YouTube video about '' @ core_topic\<rparr>)"

definition build_items ::
  "string list \<Rightarrow> (string \<rightharpoonup> yt_snippet) \<Rightarrow> (string \<rightharpoonup> engagement) \<Rightarrow> string
     \<Rightarrow> video_item list" where
  "build_items all_video_ids all_snippets stats core_topic =
     map (build_item all_snippets stats core_topic) all_video_ids"

definition is_recent :: "string \<Rightarrow> video_item \<Rightarrow> bool" where
  \<comment> \<open>\<open>i["date"] and i["date"] >= from_date\<close>: \<open>None\<close> and the empty string are false.\<close>
  "is_recent from_date i =
     (case v_date i of None \<Rightarrow> False | Some d \<Rightarrow> truthy d \<and> from_date \<le> d)"

definition soft_date_filter :: "video_item list \<Rightarrow> string \<Rightarrow> video_item list" where
  \<comment> \<open>The block "Soft date filter" of \<open>search_youtube\<close>.\<close>
  "soft_date_filter items from_date =
     (let recent = filter (is_recent from_date) items
      in if 3 \<le> length recent then recent else items)"

definition sort_by_views :: "video_item list \<Rightarrow> video_item list" where
  \<comment> \<open>\<open>items.sort(key=views, reverse=True)\<close>: stable, largest view count first.\<close>
  "sort_by_views items = sort_key (\<lambda>x. - views (engagement x)) items"

definition finish_search ::
  "string list \<Rightarrow> (string \<rightharpoonup> yt_snippet) \<Rightarrow> (string \<rightharpoonup> engagement) \<Rightarrow> string \<Rightarrow> string
     \<Rightarrow> video_item list" where
  \<comment> \<open>\<open>search_youtube\<close> from "Build items list" to its return.\<close>
  "finish_search all_video_ids all_snippets stats core_topic from_date =
     sort_by_views (soft_date_filter (build_items all_video_ids all_snippets stats core_topic) from_date)"

definition date_known_from :: "string \<Rightarrow> video_item \<Rightarrow> bool" where
  \<comment> \<open>The specification's condition: the date is known and not before the from-date.\<close>
  "date_known_from from_date i = (case v_date i of None \<Rightarrow> False | Some d \<Rightarrow> from_date \<le> d)"

definition dates_well_formed :: "video_item list \<Rightarrow> bool" where
  \<comment> \<open>What \<open>date_str\<close> guarantees: a date that is present is not the empty string.\<close>
  "dates_well_formed items = list_all (\<lambda>i. v_date i \<noteq> Some []) items"

section \<open>dataforseo\_search: the normalizer and the search loop\<close>

text \<open>
  The provider's response is a JSON document. Its containers are modelled with their
  documented types (lists of tasks, results, entries and references); a string-valued
  key of an entry or of a reference is absent, \<open>null\<close> or a string, since the code
  treats the three differently: \<open>d.get(key, default)\<close> gives the default only for an
  absent key, and \<open>None.strip()\<close> raises. \<open>urlparse(url).netloc\<close> is the standard
  library's; it is a parameter \<open>netloc\<close> of the model, \<open>None\<close> where it raises.
\<close>

datatype py_error = HTTPError | AttributeError | ValueError | OtherError

datatype field = Absent | Null | Str string

fun get_field :: "field \<Rightarrow> string option \<Rightarrow> string option" where
  \<comment> \<open>\<open>d.get(key, default)\<close>; the result \<open>None\<close> is Python's \<open>None\<close>.\<close>
  "get_field Absent d = d"
| "get_field Null d = None"
| "get_field (Str s) d = Some s"

definition truthy_opt :: "string option \<Rightarrow> bool" where
  "truthy_opt v = (case v of None \<Rightarrow> False | Some s \<Rightarrow> truthy s)"

definition py_strip :: "string option \<Rightarrow> py_error + string" where
  \<comment> \<open>\<open>v.strip()\<close> on a value that may be \<open>None\<close>.\<close>
  "py_strip v = (case v of None \<Rightarrow> Inl AttributeError | Some s \<Rightarrow> Inr (strip s))"

record reference =
  ref_url :: field
  ref_title :: field
  ref_text :: field
  ref_snippet :: field
  ref_domain :: field

record entry =
  entry_type :: field
  markdown :: field
  entry_text :: field
  references :: "reference list"

record result =
  result_items :: "entry list"

record task =
  status_code :: "int option"
  task_result :: "result list"

record response =
  tasks :: "task list"

record web_item =
  item_id :: string
  title :: string
  url :: string
  source_domain :: "string option"
  snippet :: string
  date :: "string option"
  date_confidence :: string
  relevance :: real
  why_relevant :: string

definition EXCLUDED_DOMAINS :: "string set" where
  "EXCLUDED_DOMAINS =
     {''reddit.com'', ''www.reddit.com'', ''old.reddit.com'',
      ''twitter.com'', ''www.twitter.com'', ''x.com'', ''www.x.com''}"

fun str_nat :: "nat \<Rightarrow> string" where
  \<comment> \<open>The decimal numeral an f-string prints for a non-negative integer.\<close>
  "str_nat n =
     (if n < 10 then [''0123456789'' ! n]
      else str_nat (n div 10) @ [''0123456789'' ! (n mod 10)])"

declare str_nat.simps [simp del]

fun is_substring :: "string \<Rightarrow> string \<Rightarrow> bool" where
  \<comment> \<open>\<open>t in s\<close>\<close>
  "is_substring t [] = (t = [])"
| "is_substring t (c # cs) = (startswith (c # cs) t \<or> is_substring t cs)"

fun split_on :: "char \<Rightarrow> string \<Rightarrow> string list" where
  \<comment> \<open>\<open>s.split(sep)\<close> for a separator of one character: empty pieces are kept.\<close>
  "split_on sep [] = [[]]"
| "split_on sep (c # cs) =
     (if c = sep then [] # split_on sep cs
      else (case split_on sep cs of [] \<Rightarrow> [[c]] | w # ws \<Rightarrow> (c # w) # ws))"

definition replace_char :: "char \<Rightarrow> char \<Rightarrow> string \<Rightarrow> string" where
  "replace_char a b s = map (\<lambda>c. if c = a then b else c) s"

fun first_match :: "string \<Rightarrow> string list \<Rightarrow> string option" where
  \<comment> \<open>The inner loop of \<open>_extract_mention\<close> over the sentences, for one search term.\<close>
  "first_match term_lower [] = None"
| "first_match term_lower (sentence # rest) =
     (if is_substring term_lower (lower sentence)
      then (let clean = strip sentence
            in if truthy clean then Some (take 150 clean) else first_match term_lower rest)
      else first_match term_lower rest)"

fun find_mention :: "string option list \<Rightarrow> string list \<Rightarrow> py_error + string" where
  \<comment> \<open>The outer loop over the search terms; \<open>term.lower()\<close> raises on \<open>None\<close>.\<close>
  "find_mention [] sentences = Inr []"
| "find_mention (None # terms) sentences = Inl AttributeError"
| "find_mention (Some t # terms) sentences =
     (case first_match (lower t) sentences of
        Some s \<Rightarrow> Inr s
      | None \<Rightarrow> find_mention terms sentences)"

definition extract_mention :: "string \<Rightarrow> string \<Rightarrow> string option \<Rightarrow> py_error + string" where
  "extract_mention ai_overview ttl domain =
     (if \<not> truthy ai_overview then Inr []
      else
        (let words = take 4 (split ttl);
             search_terms =
               [domain] @ (if truthy ttl \<and> 2 \<le> length words then [Some (join '' '' words)] else []);
             sentences = split_on CHR ''.'' (replace_char CHR 0x0A CHR '' '' ai_overview)
         in find_mention search_terms sentences))"

definition resolve_domain ::
  "(string \<Rightarrow> string option) \<Rightarrow> string \<Rightarrow> reference \<Rightarrow> string option option" where
  \<comment> \<open>The \<open>try\<close> block of the reference loop: \<open>None\<close> is the \<open>continue\<close> of an excluded
      domain, \<open>Some d\<close> the value of \<open>domain\<close> afterwards.\<close>
  "resolve_domain netloc u ref =
     (case netloc u of
        None \<Rightarrow> Some (get_field (ref_domain ref) (Some []))
      | Some n \<Rightarrow>
          (let domain = lower n
           in if domain \<in> EXCLUDED_DOMAINS then None
              else if startswith domain ''www.'' then Some (Some (drop 4 domain))
              else Some (Some domain)))"

definition normalize_ref ::
  "(string \<Rightarrow> string option) \<Rightarrow> string \<Rightarrow> nat \<Rightarrow> reference \<Rightarrow> py_error + web_item option" where
  \<comment> \<open>One pass of the loop over \<open>enumerate(references)\<close>: \<open>Inr None\<close> is \<open>continue\<close>.\<close>
  "normalize_ref netloc ai_overview i ref =
     (case get_field (ref_url ref) (Some []) of
        None \<Rightarrow> Inr None
      | Some u \<Rightarrow>
          if \<not> truthy u then Inr None
          else
            (case resolve_domain netloc u ref of
               None \<Rightarrow> Inr None
             | Some domain \<Rightarrow>
                 (case py_strip (get_field (ref_title ref) (Some [])) of
                    Inl e \<Rightarrow> Inl e
                  | Inr ttl \<Rightarrow>
                      (case py_strip (get_field (ref_text ref)
                                        (get_field (ref_snippet ref) (Some []))) of
                         Inl e \<Rightarrow> Inl e
                       | Inr snip \<Rightarrow>
                           if \<not> truthy ttl \<and> \<not> truthy snip then Inr None
                           else
                             (case extract_mention ai_overview ttl domain of
                                Inl e \<Rightarrow> Inl e
                              | Inr why \<Rightarrow>
                                  Inr (Some \<lparr>item_id = ''D'' @ str_nat (i + 1),
                                             title = take 200 ttl,
                                             url = u,
                                             source_domain = domain,
                                             snippet = take 500 snip,
                                             date = None,
                                             date_confidence = ''low'',
                                             relevance = 0.75,
                                             why_relevant = why\<rparr>))))))"

fun normalize_refs ::
  "(string \<Rightarrow> string option) \<Rightarrow> string \<Rightarrow> nat \<Rightarrow> reference list \<Rightarrow> web_item list
     \<Rightarrow> py_error + web_item list" where
  "normalize_refs netloc ai_overview i [] items = Inr items"
| "normalize_refs netloc ai_overview i (ref # refs) items =
     (case normalize_ref netloc ai_overview i ref of
        Inl e \<Rightarrow> Inl e
      | Inr None \<Rightarrow> normalize_refs netloc ai_overview (Suc i) refs items
      | Inr (Some it) \<Rightarrow> normalize_refs netloc ai_overview (Suc i) refs (items @ [it]))"

definition overview_text :: "entry \<Rightarrow> string option" where
  \<comment> \<open>\<open>entry.get("markdown", "") or entry.get("text", "")\<close>\<close>
  "overview_text e =
     (let m = get_field (markdown e) (Some [])
      in if truthy_opt m then m else get_field (entry_text e) (Some []))"

fun normalize_entries ::
  "(string \<Rightarrow> string option) \<Rightarrow> entry list \<Rightarrow> web_item list \<Rightarrow> string
     \<Rightarrow> py_error + (web_item list \<times> string)" where
  "normalize_entries netloc [] items ai_overview = Inr (items, ai_overview)"
| "normalize_entries netloc (e # es) items ai_overview =
     (if entry_type e = Str ''ai_overview''
      then (let ov = (case overview_text e of
                        None \<Rightarrow> ai_overview
                      | Some t \<Rightarrow> if truthy t then t else ai_overview)
            in case normalize_refs netloc ov 0 (references e) items of
                 Inl err \<Rightarrow> Inl err
               | Inr items' \<Rightarrow> normalize_entries netloc es items' ov)
      else normalize_entries netloc es items ai_overview)"

definition normalize_results ::
  "(string \<Rightarrow> string option) \<Rightarrow> response \<Rightarrow> py_error + (web_item list \<times> string)" where
  \<comment> \<open>\<open>_normalize_results\<close>; its arguments \<open>from_date\<close> and \<open>to_date\<close> are never read.\<close>
  "normalize_results netloc resp =
     (case tasks resp of
        [] \<Rightarrow> Inr ([], [])
      | t # _ \<Rightarrow>
          if status_code t \<noteq> Some 20000 then Inr ([], [])
          else
            (case task_result t of
               [] \<Rightarrow> Inr ([], [])
             | r # _ \<Rightarrow> normalize_entries netloc (result_items r) [] []))"

definition url_key :: "string \<Rightarrow> string" where
  \<comment> \<open>\<open>item["url"].lower().rstrip("/")\<close>\<close>
  "url_key u = rstrip_chars ''/'' (lower u)"

definition letter_pairs :: "(char \<times> char) list" where
  \<comment> \<open>The capital and the small form of each letter of the alphabet.\<close>
  "letter_pairs = zip ''ABCDEFGHIJKLMNOPQRSTUVWXYZ'' ''abcdefghijklmnopqrstuvwxyz''"

definition case_variant :: "char \<Rightarrow> char \<Rightarrow> bool" where
  \<comment> \<open>The specification's "differ only by case", for one character.\<close>
  "case_variant a b = (a = b \<or> (a, b) \<in> set letter_pairs \<or> (b, a) \<in> set letter_pairs)"

definition differ_by_case :: "string \<Rightarrow> string \<Rightarrow> bool" where
  \<comment> \<open>Two urls of the same length that differ, position by position, by case only.\<close>
  "differ_by_case u v = list_all2 case_variant u v"

fun dedupe ::
  "web_item list \<Rightarrow> string set \<Rightarrow> web_item list \<Rightarrow> string set \<times> web_item list" where
  \<comment> \<open>The loop "Dedupe across queries" over one query's items.\<close>
  "dedupe [] seen_urls all_items = (seen_urls, all_items)"
| "dedupe (item # items) seen_urls all_items =
     (if url_key (url item) \<notin> seen_urls
      then dedupe items (insert (url_key (url item)) seen_urls) (all_items @ [item])
      else dedupe items seen_urls all_items)"

definition run_query ::
  "(string \<Rightarrow> py_error + response) \<Rightarrow> (string \<Rightarrow> string option) \<Rightarrow> string
     \<Rightarrow> py_error + (web_item list \<times> string)" where
  \<comment> \<open>\<open>_call_api\<close> (the network, a parameter) followed by \<open>_normalize_results\<close>.\<close>
  "run_query call_api netloc query =
     (case call_api query of Inl e \<Rightarrow> Inl e | Inr resp \<Rightarrow> normalize_results netloc resp)"

fun search_loop ::
  "(string \<Rightarrow> py_error + response) \<Rightarrow> (string \<Rightarrow> string option) \<Rightarrow> string list
     \<Rightarrow> web_item list \<times> string list \<times> string set
     \<Rightarrow> web_item list \<times> string list \<times> string set" where
  \<comment> \<open>The loop over the queries: both \<open>except\<close> clauses log and go on.\<close>
  "search_loop call_api netloc [] st = st"
| "search_loop call_api netloc (query # queries) (all_items, all_overviews, seen_urls) =
     (case run_query call_api netloc query of
        Inl e \<Rightarrow> search_loop call_api netloc queries (all_items, all_overviews, seen_urls)
      | Inr (items, overview) \<Rightarrow>
          (case dedupe items seen_urls all_items of
             (seen', items') \<Rightarrow>
               search_loop call_api netloc queries
                 (items', if truthy overview then all_overviews @ [overview] else all_overviews,
                  seen')))"

definition search_web ::
  "(string \<Rightarrow> py_error + response) \<Rightarrow> (string \<Rightarrow> string option) \<Rightarrow> string \<Rightarrow> string
     \<Rightarrow> web_item list \<times> string" where
  "search_web call_api netloc topic depth =
     (case search_loop call_api netloc (build_structured_queries topic depth) ([], [], {}) of
        (all_items, all_overviews, seen_urls) \<Rightarrow>
          (all_items,
           if all_overviews \<noteq> []
           then join [CHR 0x0A, CHR 0x0A, CHR ''-'', CHR ''-'', CHR ''-'', CHR 0x0A, CHR 0x0A]
                  all_overviews
           else []))"

definition query_items ::
  "(string \<Rightarrow> py_error + response) \<Rightarrow> (string \<Rightarrow> string option) \<Rightarrow> string
     \<Rightarrow> web_item list" where
  \<comment> \<open>The normalized items one query contributes: none when the call or the
      normalizer raised.\<close>
  "query_items call_api netloc query =
     (case run_query call_api netloc query of Inl e \<Rightarrow> [] | Inr (items, overview) \<Rightarrow> items)"

fun dedupe_all ::
  "web_item list list \<Rightarrow> string set \<Rightarrow> web_item list \<Rightarrow> string set \<times> web_item list" where
  \<comment> \<open>The two nested loops of \<open>search_web\<close> on a sequence of per-query item lists.\<close>
  "dedupe_all [] seen_urls all_items = (seen_urls, all_items)"
| "dedupe_all (items # rest) seen_urls all_items =
     (case dedupe items seen_urls all_items of
        (seen', items') \<Rightarrow> dedupe_all rest seen' items')"

definition merged_items :: "web_item list list \<Rightarrow> web_item list" where
  "merged_items item_lists = snd (dedupe_all item_lists {} [])"

fun fresh :: "web_item list \<Rightarrow> string set \<Rightarrow> web_item list" where
  \<comment> \<open>The items of a list that the loop appends, given the keys seen before it.\<close>
  "fresh [] seen_urls = []"
| "fresh (item # items) seen_urls =
     (if url_key (url item) \<in> seen_urls then fresh items seen_urls
      else item # fresh items (insert (url_key (url item)) seen_urls))"

definition item_ok :: "web_item \<Rightarrow> bool" where
  \<comment> \<open>The invariant of the data model: a url, and a title or a snippet.\<close>
  "item_ok it = (url it \<noteq> [] \<and> (title it \<noteq> [] \<or> snippet it \<noteq> []))"

definition not_excluded :: "(string \<Rightarrow> string option) \<Rightarrow> web_item \<Rightarrow> bool" where
  \<comment> \<open>The parsed domain of the item's url, where the url parses, is not an excluded one.\<close>
  "not_excluded netloc it =
     (case netloc (url it) of None \<Rightarrow> True | Some n \<Rightarrow> lower n \<notin> EXCLUDED_DOMAINS)"

section \<open>youtube\_yt: the core subject of a topic\<close>

definition prefixes :: "string list" where
  "prefixes =
     [''what are the best'', ''what is the best'', ''what are the latest'',
      ''what are people saying about'', ''what do people think about'',
      ''how do i use'', ''how to use'', ''how to'',
      ''what are'', ''what is'', ''tips for'', ''best practices for'']"

definition noise :: "string set" where
  "noise =
     {''best'', ''top'', ''good'', ''great'', ''awesome'', ''killer'',
      ''latest'', ''new'', ''news'', ''update'', ''updates'',
      ''trending'', ''hottest'', ''popular'', ''viral'',
      ''practices'', ''features'',
      ''recommendations'', ''advice'',
      ''prompt'', ''prompts'', ''prompting'',
      ''methods'', ''strategies'', ''approaches''}"

definition strip_prefix :: "string \<Rightarrow> string \<Rightarrow> string" where
  \<comment> \<open>One pass of the loop over the prefixes.\<close>
  "strip_prefix text p =
     (if startswith text (p @ '' '') then strip (drop (length p) text) else text)"

definition prefix_stripped :: "string \<Rightarrow> string" where
  \<comment> \<open>The value of \<open>text\<close> after the loop over the prefixes.\<close>
  "prefix_stripped topic = foldl strip_prefix (strip (lower topic)) prefixes"

definition filtered_words :: "string \<Rightarrow> string list" where
  \<comment> \<open>The list \<open>filtered\<close>.\<close>
  "filtered_words topic = filter (\<lambda>w. w \<notin> noise) (split (prefix_stripped topic))"

definition solid :: "string \<Rightarrow> bool" where
  \<comment> \<open>A text that is not empty and does not end in whitespace, as a stripped text
      with a visible character is.\<close>
  "solid t = (t \<noteq> [] \<and> \<not> py_isspace (last t))"

definition punctuation_only :: "string list \<Rightarrow> bool" where
  \<comment> \<open>A single word made of the characters that the final \<open>rstrip\<close> removes.\<close>
  "punctuation_only ws =
     (case ws of [w] \<Rightarrow> list_all (\<lambda>c. c \<in> set ''?!.'') w | _ \<Rightarrow> False)"

definition extract_core_subject :: "string \<Rightarrow> string" where
  "extract_core_subject topic =
     (let text = prefix_stripped topic;
          filtered = filtered_words topic;
          result = (if filtered \<noteq> [] then join '' '' filtered else text)
      in rstrip_chars ''?!.'' result)"

section \<open>supadata: truncation, the job poller, the transcript fetch\<close>

definition truncate :: "string \<Rightarrow> nat \<Rightarrow> string" where
  "truncate text max_words =
     (let words = split text
      in if max_words < length words then join '' '' (take max_words words) @ ''...''
         else text)"

definition TRANSCRIPT_MAX_WORDS :: nat where
  "TRANSCRIPT_MAX_WORDS = 500"

text \<open>
  One status request of the poller either raises inside the \<open>try\<close> block (the
  transport, the JSON decoder or \<open>data.get\<close> on a body that is no object) or gives the
  keys \<open>status\<close> and \<open>content\<close> of the decoded body, each absent (\<open>None\<close>) or a string.
  The requests a job receives are a parameter of the model: \<open>poll k\<close> is the outcome of
  request number \<open>k\<close>, counted from 0.
\<close>

datatype poll = PollRaised | PollData "string option" "string option"

definition poll_outcome :: "poll \<Rightarrow> string option option" where
  \<comment> \<open>The body of the loop after the sleep: \<open>Some r\<close> is \<open>return r\<close>, \<open>None\<close> goes on.\<close>
  "poll_outcome p =
     (case p of
        PollRaised \<Rightarrow> Some None
      | PollData status content \<Rightarrow>
          if status = Some ''completed''
          then (let c = get_or content [] in Some (if truthy c then Some c else None))
          else if status = Some ''failed'' then Some None
          else None)"

partial_function (option) poll_loop ::
  "(nat \<Rightarrow> poll) \<Rightarrow> int \<Rightarrow> int \<Rightarrow> int \<Rightarrow> nat \<Rightarrow> (string option \<times> nat) option" where
  \<comment> \<open>The \<open>while\<close> loop; the last argument counts the status requests made so far,
      and the result carries that count next to the value returned. A loop that
      never ends is \<open>None\<close>.\<close>
  [code]: "poll_loop poll max_wait interval elapsed n =
     (if elapsed < max_wait
      then (case poll_outcome (poll n) of
              Some r \<Rightarrow> Some (r, Suc n)
            | None \<Rightarrow> poll_loop poll max_wait interval (elapsed + interval) (Suc n))
      else Some (None, n))"

definition poll_job :: "(nat \<Rightarrow> poll) \<Rightarrow> int \<Rightarrow> int \<Rightarrow> (string option \<times> nat) option" where
  "poll_job poll max_wait interval = poll_loop poll max_wait interval 0 0"

text \<open>
  The transcribe request: a response with a status and the keys \<open>content\<close> and
  \<open>jobId\<close> of its body, an \<open>HTTPError\<close> with a code and the key \<open>jobId\<close> of its body
  (\<open>None\<close> also where the body does not decode), or any other exception.
\<close>

datatype http_result =
    Response nat "string option" "string option"
  | HTTPFailure nat "string option"
  | OtherFailure

definition poll_transcript :: "(string \<Rightarrow> nat \<Rightarrow> poll) \<Rightarrow> string \<Rightarrow> string option option" where
  \<comment> \<open>\<open>content = _poll_job(job_id, api_key)\<close> with the default budget, then
      \<open>_truncate(content.strip())\<close> when the content is not empty.\<close>
  "poll_transcript polls job_id =
     (case poll_job (polls job_id) 60 3 of
        None \<Rightarrow> None
      | Some (content, n) \<Rightarrow>
          Some (if truthy_opt content
                then Some (truncate (strip (get_or content [])) TRANSCRIPT_MAX_WORDS)
                else None))"

definition fetch_transcript ::
  "(string \<Rightarrow> http_result) \<Rightarrow> (string \<Rightarrow> nat \<Rightarrow> poll) \<Rightarrow> string \<Rightarrow> string
     \<Rightarrow> string option option" where
  \<comment> \<open>The outer \<open>option\<close> is \<open>None\<close> where the call does not return; the inner one is
      the \<open>Optional[str]\<close> of the source. Every \<open>except\<close> clause returns \<open>None\<close>.\<close>
  "fetch_transcript http polls video_url api_key =
     (if \<not> truthy api_key then Some None
      else
        (case http video_url of
           Response status content_field job_field \<Rightarrow>
             if status = 200
             then (let content = get_or content_field []
                   in Some (if truthy content
                            then Some (truncate (strip content) TRANSCRIPT_MAX_WORDS)
                            else None))
             else if status = 202
             then (if \<not> truthy_opt job_field then Some None
                   else poll_transcript polls (get_or job_field []))
             else Some None
         | HTTPFailure code job_field \<Rightarrow>
             if code = 202 \<and> truthy_opt job_field
             then poll_transcript polls (get_or job_field [])
             else Some None
         | OtherFailure \<Rightarrow> Some None))"

section \<open>The parallel fetch coordinators\<close>

text \<open>
  A future either raises or returns the \<open>Optional[str]\<close> of its fetch; \<open>fetch\<close> gives
  the outcome for each key. \<open>as_completed\<close> yields the futures in the order they
  finish, which is the argument \<open>completed\<close>. The dictionary \<open>results\<close> is an
  association list in insertion order. A \<open>ThreadPoolExecutor\<close> refuses a worker
  count that is not positive.
\<close>

definition future_result :: "(string \<Rightarrow> py_error + string option) \<Rightarrow> string \<Rightarrow> string option" where
  \<comment> \<open>\<open>try: results[k] = future.result()  except Exception: results[k] = None\<close>\<close>
  "future_result fetch k = (case fetch k of Inl e \<Rightarrow> None | Inr r \<Rightarrow> r)"

definition collect ::
  "(string \<Rightarrow> py_error + string option) \<Rightarrow> string list \<Rightarrow> (string \<times> string option) list" where
  "collect fetch completed =
     foldl (\<lambda>results k. AList.update k (future_result fetch k) results) [] completed"

definition run_pool ::
  "(string \<Rightarrow> py_error + string option) \<Rightarrow> int \<Rightarrow> string list
     \<Rightarrow> py_error + (string \<times> string option) list" where
  "run_pool fetch max_workers completed =
     (if max_workers \<le> 0 then Inl ValueError else Inr (collect fetch completed))"

definition fetch_transcripts_batch ::
  "(string \<Rightarrow> py_error + string option) \<Rightarrow> string list \<Rightarrow> string \<Rightarrow> int \<Rightarrow> string list
     \<Rightarrow> py_error + (string \<times> string option) list" where
  \<comment> \<open>supadata\<close>
  "fetch_transcripts_batch fetch urls api_key max_workers completed =
     (if urls = [] \<or> \<not> truthy api_key then Inr []
      else run_pool fetch max_workers completed)"

definition fetch_transcripts_parallel ::
  "(string \<Rightarrow> py_error + string option) \<Rightarrow> string list \<Rightarrow> int \<Rightarrow> string list
     \<Rightarrow> py_error + (string \<times> string option) list" where
  \<comment> \<open>youtube\_yt\<close>
  "fetch_transcripts_parallel fetch video_ids max_workers completed =
     (if video_ids = [] then Inr [] else run_pool fetch max_workers completed)"

definition is_completion_of :: "string list \<Rightarrow> string list \<Rightarrow> bool" where
  \<comment> \<open>Every submitted key finishes once: \<open>completed\<close> is a reordering of the keys.\<close>
  "is_completion_of completed keys =
     (distinct completed \<and> length completed = length keys
      \<and> list_all (\<lambda>k. k \<in> set keys) completed)"

fun scan_polls :: "(nat \<Rightarrow> poll) \<Rightarrow> nat \<Rightarrow> nat \<Rightarrow> string option \<times> nat" where
  \<comment> \<open>The loop of the poller unrolled for a given number of passes.\<close>
  "scan_polls poll 0 n = (None, n)"
| "scan_polls poll (Suc fuel) n =
     (case poll_outcome (poll n) of
        Some r \<Rightarrow> (r, Suc n)
      | None \<Rightarrow> scan_polls poll fuel (Suc n))"

definition polls_allowed :: "int \<Rightarrow> int \<Rightarrow> nat" where
  \<comment> \<open>The passes the budget allows: the least \<open>m\<close> with \<open>m * interval \<ge> max_wait\<close>.\<close>
  "polls_allowed max_wait interval =
     (if max_wait \<le> 0 then 0 else nat ((max_wait + interval - 1) div interval))"

definition terminal :: "poll \<Rightarrow> bool" where
  \<comment> \<open>The specification's terminal observations: an exception, or one of the
      statuses completed and failed.\<close>
  "terminal p =
     (case p of
        PollRaised \<Rightarrow> True
      | PollData status content \<Rightarrow> status = Some ''completed'' \<or> status = Some ''failed'')"

definition poll_value :: "poll \<Rightarrow> string option" where
  \<comment> \<open>The specification's result of a terminal observation: the content of a
      completed job when it is not empty, null otherwise.\<close>
  "poll_value p =
     (case p of
        PollRaised \<Rightarrow> None
      | PollData status content \<Rightarrow>
          (case content of
             None \<Rightarrow> None
           | Some c \<Rightarrow> if status = Some ''completed'' \<and> c \<noteq> [] then Some c else None))"

definition null_count :: "(string \<times> string option) list \<Rightarrow> nat" where
  "null_count results = length (filter (\<lambda>kv. snd kv = None) results)"

definition raising :: "(string \<Rightarrow> py_error + string option) \<Rightarrow> string \<Rightarrow> bool" where
  "raising fetch k = (case fetch k of Inl e \<Rightarrow> True | Inr r \<Rightarrow> False)"

definition submitted_fetch ::
  "(string \<Rightarrow> http_result) \<Rightarrow> (string \<Rightarrow> nat \<Rightarrow> poll) \<Rightarrow> string \<Rightarrow> string
     \<Rightarrow> py_error + string option" where
  \<comment> \<open>The callable supadata submits to the pool, \<open>fetch_transcript(url, api_key)\<close>, as
      an outcome of its future. The fetch always returns, so the second case is
      never met.\<close>
  "submitted_fetch http polls api_key video_url =
     (case fetch_transcript http polls video_url api_key of
        Some r \<Rightarrow> Inr r
      | None \<Rightarrow> Inl OtherError)"

section \<open>Sample inputs\<close>

definition sample_video :: "string \<Rightarrow> string \<Rightarrow> int \<Rightarrow> video_item" where
  \<comment> \<open>The item \<open>search_youtube\<close> builds for a video with a publication time and a
      view count.\<close>
  "sample_video vid published n =
     build_item [vid \<mapsto> \<lparr>publishedAt = Some published, snippet_title = Some ''t'',
                          channelTitle = None\<rparr>]
                [vid \<mapsto> \<lparr>views = n, likes = 0, comments = 0\<rparr>] ''bikes'' vid"

definition sample_videos :: "video_item list" where
  "sample_videos =
     [sample_video ''a'' ''2025-03-01T10:00:00Z'' 5,
      sample_video ''b'' ''2024-12-31T23:59:59Z'' 9,
      sample_video ''c'' ''2025-01-01T00:00:00Z'' 7,
      sample_video ''d'' '''' 1,
      sample_video ''e'' ''2025-02-10T08:30:00Z'' 2]"

definition sample_polls :: "nat \<Rightarrow> poll" where
  \<comment> \<open>A job that is still processing at the first two requests and completed at the
      third.\<close>
  "sample_polls k =
     (if k = 2 then PollData (Some ''completed'') (Some ''hello world'')
      else PollData (Some ''processing'') None)"

definition empty_content_http :: "string \<Rightarrow> http_result" where
  \<comment> \<open>A provider that answers every transcribe request with 200 and no content.\<close>
  "empty_content_http video_url = Response 200 (Some []) None"

definition sample_fetch :: "string \<Rightarrow> py_error + string option" where
  \<comment> \<open>Three kinds of future: one raises, one returns null, the others a transcript.\<close>
  "sample_fetch k =
     (if k = ''u1'' then Inl OtherError else if k = ''u2'' then Inr None
      else Inr (Some ''a transcript''))"

definition no_polls :: "string \<Rightarrow> nat \<Rightarrow> poll" where
  "no_polls job_id k = PollRaised"

fun after_slashes :: "string \<Rightarrow> string option" where
  "after_slashes (a # b # cs) =
     (if a = CHR ''/'' \<and> b = CHR ''/'' then Some cs else after_slashes (b # cs))"
| "after_slashes cs = None"

definition sample_netloc :: "string \<Rightarrow> string option" where
  \<comment> \<open>A stand-in for \<open>urlparse(url).netloc\<close> on the sample URLs: the text between the
      first \<open>//\<close> and the next \<open>/\<close>, \<open>?\<close> or \<open>#\<close>.\<close>
  "sample_netloc u =
     (case after_slashes u of
        None \<Rightarrow> Some []
      | Some r \<Rightarrow> Some (takeWhile (\<lambda>c. c \<notin> set ''/?#'') r))"

definition sample_ref :: "string \<Rightarrow> field \<Rightarrow> field \<Rightarrow> reference" where
  "sample_ref u t s =
     \<lparr>ref_url = Str u, ref_title = t, ref_text = s, ref_snippet = Absent, ref_domain = Absent\<rparr>"

definition sample_response :: "reference list \<Rightarrow> response" where
  \<comment> \<open>A successful response with one \<open>ai_overview\<close> entry.\<close>
  "sample_response refs =
     \<lparr>tasks = [\<lparr>status_code = Some 20000,
                 task_result = [\<lparr>result_items =
                   [\<lparr>entry_type = Str ''ai_overview'',
                     markdown = Str ''E-bikes are booming. BikeRadar recommends checking motor wattage.'',
                     entry_text = Absent,
                     references = refs\<rparr>]\<rparr>]\<rparr>]\<rparr>"

definition sample_refs_1 :: "reference list" where
  "sample_refs_1 =
     [sample_ref ''https://Example.com/E-Bikes/'' Absent Absent,
      sample_ref ''https://www.reddit.com/r/ebikes'' (Str ''Best Electric Bikes 2026'') Absent,
      sample_ref ''https://www.BikeRadar.com/Guide/'' (Str ''  BikeRadar buying guide '') Absent,
      sample_ref ''https://example.com/e-bikes'' (Str ''First title'') (Str ''first snippet'')]"

definition sample_refs_2 :: "reference list" where
  "sample_refs_2 =
     [sample_ref ''https://Example.com/E-Bikes/'' (Str ''Second title'') (Str ''second snippet''),
      sample_ref ''https://cyclingweekly.com/news'' (Str ''Cycling Weekly news'') Absent,
      sample_ref ''https://electrek.co/guides'' (Str ''Electrek guides'') Absent]"

definition sample_api :: "string \<Rightarrow> py_error + response" where
  \<comment> \<open>The provider: one answer for the first template, another for the second, an
      error for anything else.\<close>
  "sample_api query =
     (if startswith query ''What are the biggest'' then Inr (sample_response sample_refs_1)
      else if startswith query ''Who are the top'' then Inr (sample_response sample_refs_2)
      else Inl HTTPError)"

definition sample_item :: "string \<Rightarrow> string \<Rightarrow> string \<Rightarrow> string \<Rightarrow> web_item" where
  "sample_item n u t s =
     \<lparr>item_id = ''D'' @ n, title = t, url = u, source_domain = Some ''example.com'',
      snippet = s, date = None, date_confidence = ''low'', relevance = 0.75,
      why_relevant = []\<rparr>"

definition sample_lists :: "web_item list list" where
  \<comment> \<open>Two queries whose first items differ by case and a trailing slash only.\<close>
  "sample_lists =
     [[sample_item ''1'' ''https://Example.com/E-Bikes/'' ''First title'' ''first snippet''],
      [sample_item ''1'' ''https://example.com/e-bikes'' ''Second title'' ''second snippet'',
       sample_item ''2'' ''https://cyclingweekly.com/news'' ''News'' []]]"

section \<open>Properties\<close>

subsection \<open>The query builder of the overview source\<close>

lemma length_query_templates: "length (query_templates topic) = 3"
  by (simp add: query_templates_def)

text \<open>
  Claim C3. For every topic, the query builder of the overview source returns one query
  at depth quick, two at depth default and three at depth deep, and whatever the depth
  string is, the list returned is a prefix of the same three templates (trends and
  drivers, influencers and brands, expert recommendations), in that order.
\<close>

theorem build_structured_queries_prefix:
  "length (build_structured_queries topic ''quick'') = 1
   \<and> length (build_structured_queries topic ''default'') = 2
   \<and> length (build_structured_queries topic ''deep'') = 3
   \<and> prefix (build_structured_queries topic depth)
        [''What are the biggest '' @ topic @ '' trends and what's driving them?'',
         ''Who are the top influencers and brands in '' @ topic @ '' right now?'',
         ''What do experts recommend for '' @ topic @ '' in 2026?'']"
proof -
  have "prefix (take (depth_count depth) (query_templates topic)) (query_templates topic)"
    by (rule take_is_prefix)
  then show ?thesis
    by (simp add: build_structured_queries_def depth_count_def query_templates_def)
qed

subsection \<open>The soft date filter\<close>

lemma date_str_nonempty: "date_str p \<noteq> Some []"
  by (auto simp: date_str_def)

lemma build_items_well_formed:
  "dates_well_formed (build_items ids snips stats core)"
  by (simp add: dates_well_formed_def build_items_def build_item_def Let_def
      list_all_iff date_str_nonempty)

lemma is_recent_iff:
  "v_date i \<noteq> Some [] \<or> fd \<noteq> [] \<Longrightarrow> is_recent fd i = date_known_from fd i"
  by (cases "v_date i") (auto simp: is_recent_def date_known_from_def truthy_def)

lemma filter_recent_eq:
  "dates_well_formed items \<or> fd \<noteq> [] \<Longrightarrow>
     filter (is_recent fd) items = filter (date_known_from fd) items"
  by (rule filter_cong) (auto simp: dates_well_formed_def list_all_iff is_recent_iff)

text \<open>
  Claim C1. For every item list and every from-date, where the from-date is not the
  empty string or the dates of the list are those \<open>search_youtube\<close> builds (absent,
  or a non-empty string), the recency filter returns exactly the items whose date is
  known and not before the from-date when there are at least three of them, and the
  original list unchanged when there are fewer than three.
\<close>

theorem soft_date_filter_spec:
  assumes "dates_well_formed items \<or> from_date \<noteq> []"
  shows "soft_date_filter items from_date =
           (if 3 \<le> length (filter (date_known_from from_date) items)
            then filter (date_known_from from_date) items else items)"
  using filter_recent_eq [OF assms]
  by (simp add: soft_date_filter_def Let_def)

lemma sample_dates: "dates_well_formed sample_videos"
  by (simp add: dates_well_formed_def sample_videos_def sample_video_def build_item_def
      date_str_def get_or_def Let_def)

text \<open>
  The filter on five videos and the from-date 2025-01-01: three are dated in the window,
  one is older and one has no date; the three are kept.
\<close>

theorem soft_date_filter_spec_witness:
  "(dates_well_formed sample_videos \<or> ''2025-01-01'' \<noteq> [])
   \<and> soft_date_filter sample_videos ''2025-01-01''
       = [sample_video ''a'' ''2025-03-01T10:00:00Z'' 5,
          sample_video ''c'' ''2025-01-01T00:00:00Z'' 7,
          sample_video ''e'' ''2025-02-10T08:30:00Z'' 2]"
proof -
  have h: "dates_well_formed sample_videos \<or> ''2025-01-01'' \<noteq> []"
    using sample_dates by simp
  have r: "(if 3 \<le> length (filter (date_known_from ''2025-01-01'') sample_videos)
            then filter (date_known_from ''2025-01-01'') sample_videos else sample_videos)
           = [sample_video ''a'' ''2025-03-01T10:00:00Z'' 5,
              sample_video ''c'' ''2025-01-01T00:00:00Z'' 7,
              sample_video ''e'' ''2025-02-10T08:30:00Z'' 2]"
    by (simp add: sample_videos_def sample_video_def build_item_def date_known_from_def
        date_str_def get_or_def Let_def)
  show ?thesis
    using h trans [OF soft_date_filter_spec [OF h] r] by (rule conjI)
qed
subsection \<open>The normalizer of the overview source\<close>

lemma normalize_ref_item:
  assumes "normalize_ref netloc ov i ref = Inr (Some it)"
  shows "item_ok it \<and> not_excluded netloc it \<and> ref_url ref = Str (url it)
         \<and> item_id it = ''D'' @ str_nat (i + 1)"
proof (cases "get_field (ref_url ref) (Some [])")
  case None
  with assms show ?thesis by (simp add: normalize_ref_def)
next
  case (Some u)
  note u = Some
  show ?thesis
  proof (cases "truthy u")
    case False
    with assms u show ?thesis by (simp add: normalize_ref_def)
  next
    case tu: True
    show ?thesis
    proof (cases "resolve_domain netloc u ref")
      case None
      with assms u tu show ?thesis by (simp add: normalize_ref_def)
    next
      case (Some domain)
      note d = Some
      show ?thesis
      proof (cases "py_strip (get_field (ref_title ref) (Some []))")
        case (Inl e)
        with assms u tu d show ?thesis by (simp add: normalize_ref_def)
      next
        case (Inr ttl)
        note t = Inr
        show ?thesis
        proof (cases "py_strip (get_field (ref_text ref) (get_field (ref_snippet ref) (Some [])))")
          case (Inl e)
          with assms u tu d t show ?thesis by (simp add: normalize_ref_def)
        next
          case (Inr snip)
          note s = Inr
          show ?thesis
          proof (cases "\<not> truthy ttl \<and> \<not> truthy snip")
            case True
            with assms u tu d t s show ?thesis by (simp add: normalize_ref_def)
          next
            case ne: False
            show ?thesis
            proof (cases "extract_mention ov ttl domain")
              case (Inl e)
              with assms u tu d t s ne show ?thesis by (simp add: normalize_ref_def)
            next
              case (Inr why)
              with assms u tu d t s ne have
                it: "it = \<lparr>item_id = ''D'' @ str_nat (i + 1), title = take 200 ttl, url = u,
                           source_domain = domain, snippet = take 500 snip, date = None,
                           date_confidence = ''low'', relevance = 0.75, why_relevant = why\<rparr>"
                by (simp add: normalize_ref_def)
              have ok: "item_ok it"
                using tu ne by (auto simp: it item_ok_def truthy_def)
              have ex: "not_excluded netloc it"
                using d by (auto simp: it not_excluded_def resolve_domain_def Let_def
                                 split: option.splits if_splits)
              have ur: "ref_url ref = Str (url it)"
                using u tu by (cases "ref_url ref") (auto simp: it truthy_def)
              have nm: "item_id it = ''D'' @ str_nat (i + 1)" by (simp add: it)
              from ok ex ur nm show ?thesis by simp
            qed
          qed
        qed
      qed
    qed
  qed
qed

lemma normalize_refs_items:
  assumes "normalize_refs netloc ov i refs items = Inr items'"
    and "list_all P items"
    and "\<And>j ref it. normalize_ref netloc ov j ref = Inr (Some it) \<Longrightarrow> P it"
  shows "list_all P items'"
  using assms(1,2)
proof (induction refs arbitrary: i items)
  case Nil
  then show ?case by simp
next
  case (Cons ref refs)
  show ?case
  proof (cases "normalize_ref netloc ov i ref")
    case (Inl e)
    with Cons.prems show ?thesis by simp
  next
    case (Inr r)
    show ?thesis
    proof (cases r)
      case None
      with Inr Cons.prems Cons.IH [of "Suc i" items] show ?thesis by simp
    next
      case (Some it)
      with Inr have "P it" using assms(3) by blast
      with Some Inr Cons.prems Cons.IH [of "Suc i" "items @ [it]"] show ?thesis by simp
    qed
  qed
qed

lemma normalize_entries_items:
  assumes "normalize_entries netloc es items ov = Inr (items', ov')"
    and "list_all P items"
    and "\<And>ovw j ref it. normalize_ref netloc ovw j ref = Inr (Some it) \<Longrightarrow> P it"
  shows "list_all P items'"
  using assms(1,2)
proof (induction es arbitrary: items ov)
  case Nil
  then show ?case by simp
next
  case (Cons e es)
  show ?case
  proof (cases "entry_type e = Str ''ai_overview''")
    case False
    with Cons.prems Cons.IH [of items ov] show ?thesis by simp
  next
    case True
    define ovw where "ovw = (case overview_text e of None \<Rightarrow> ov
                          | Some t \<Rightarrow> if truthy t then t else ov)"
    show ?thesis
    proof (cases "normalize_refs netloc ovw 0 (references e) items")
      case (Inl err)
      with True Cons.prems show ?thesis by (simp add: ovw_def)
    next
      case (Inr its)
      then have "list_all P its"
        using normalize_refs_items [of netloc ovw 0 "references e" items its P] Cons.prems(2) assms(3)
        by blast
      moreover from True Inr Cons.prems(1)
      have "normalize_entries netloc es its ovw = Inr (items', ov')" by (simp add: ovw_def)
      ultimately show ?thesis using Cons.IH by blast
    qed
  qed
qed

lemma normalize_results_items:
  assumes "normalize_results netloc resp = Inr (items, ov)"
    and "\<And>ovw j ref it. normalize_ref netloc ovw j ref = Inr (Some it) \<Longrightarrow> P it"
  shows "list_all P items"
proof (cases "tasks resp")
  case Nil
  with assms(1) show ?thesis by (simp add: normalize_results_def)
next
  case (Cons t ts)
  show ?thesis
  proof (cases "status_code t \<noteq> Some 20000 \<or> task_result t = []")
    case True
    with Cons assms(1) show ?thesis
      by (auto simp: normalize_results_def split: list.splits if_splits)
  next
    case False
    then obtain r rs where r: "task_result t = r # rs" by (cases "task_result t") auto
    with False Cons assms(1)
    have "normalize_entries netloc (result_items r) [] [] = Inr (items, ov)"
      by (simp add: normalize_results_def)
    from normalize_entries_items [OF this _ assms(2)] show ?thesis by simp
  qed
qed

subsection \<open>The search loop of the overview source\<close>

lemma dedupe_fresh:
  "dedupe xs seen acc = (seen \<union> (url_key \<circ> url) ` set xs, acc @ fresh xs seen)"
  by (induction xs arbitrary: seen acc) auto

lemma fresh_append:
  "fresh (xs @ ys) seen = fresh xs seen @ fresh ys (seen \<union> (url_key \<circ> url) ` set xs)"
  by (induction xs arbitrary: seen) (auto simp: insert_absorb)

lemma dedupe_all_fresh:
  "dedupe_all ls seen acc
     = (seen \<union> (url_key \<circ> url) ` set (concat ls), acc @ fresh (concat ls) seen)"
proof (induction ls arbitrary: seen acc)
  case Nil
  show ?case by simp
next
  case (Cons l ls)
  show ?case
    by (simp add: dedupe_fresh Cons.IH fresh_append image_Un Un_assoc)
qed

lemma search_loop_items:
  "fst (search_loop call_api netloc qs (items, ovs, seen))
     = snd (dedupe_all (map (query_items call_api netloc) qs) seen items)"
proof (induction qs arbitrary: items ovs seen)
  case Nil
  show ?case by simp
next
  case (Cons q qs)
  show ?case
  proof (cases "run_query call_api netloc q")
    case (Inl e)
    then show ?thesis by (simp add: query_items_def Cons.IH)
  next
    case (Inr r)
    obtain its ov where r: "r = (its, ov)" by (cases r)
    obtain s' a' where d: "dedupe its seen items = (s', a')" by (cases "dedupe its seen items")
    show ?thesis using Inr r d by (simp add: query_items_def Cons.IH)
  qed
qed

lemma search_web_items:
  "fst (search_web call_api netloc topic depth)
     = merged_items (map (query_items call_api netloc) (build_structured_queries topic depth))"
proof -
  obtain a b c where
    l: "search_loop call_api netloc (build_structured_queries topic depth) ([], [], {}) = (a, b, c)"
    by (cases "search_loop call_api netloc (build_structured_queries topic depth) ([], [], {})")
  have "fst (search_web call_api netloc topic depth) = a"
    by (simp add: search_web_def l)
  also have "a = fst (search_loop call_api netloc (build_structured_queries topic depth) ([], [], {}))"
    by (simp add: l)
  finally show ?thesis by (simp add: search_loop_items merged_items_def)
qed

lemma merged_items_fresh: "merged_items ls = fresh (concat ls) {}"
  by (simp add: merged_items_def dedupe_all_fresh)

lemma fresh_keys: "(url_key \<circ> url) ` set (fresh xs seen) = (url_key \<circ> url) ` set xs - seen"
  by (induction xs arbitrary: seen) auto

lemma fresh_distinct: "distinct (map (url_key \<circ> url) (fresh xs seen))"
proof (induction xs arbitrary: seen)
  case Nil
  show ?case by simp
next
  case (Cons x xs)
  show ?case using Cons.IH fresh_keys [of xs "insert (url_key (url x)) seen"] by auto
qed

lemma fresh_subseq: "subseq (fresh xs seen) xs"
  by (induction xs arbitrary: seen) auto

lemma fresh_subset: "set (fresh xs seen) \<subseteq> set xs"
  by (induction xs arbitrary: seen) auto

lemma fresh_first:
  "x \<in> set (fresh xs seen) \<Longrightarrow> find (\<lambda>y. url_key (url y) = url_key (url x)) xs = Some x"
proof (induction xs arbitrary: seen)
  case Nil
  then show ?case by simp
next
  case (Cons a xs)
  show ?case
  proof (cases "url_key (url a) \<in> seen")
    case True
    with Cons.prems have x: "x \<in> set (fresh xs seen)" by simp
    then have "(url_key \<circ> url) x \<in> (url_key \<circ> url) ` set xs - seen"
      using fresh_keys [of xs seen] by blast
    with True have "url_key (url a) \<noteq> url_key (url x)" by auto
    with Cons.IH [OF x] show ?thesis by simp
  next
    case False
    show ?thesis
    proof (cases "x = a")
      case True
      then show ?thesis by simp
    next
      case ne: False
      with False Cons.prems have x: "x \<in> set (fresh xs (insert (url_key (url a)) seen))" by simp
      then have "(url_key \<circ> url) x \<in> (url_key \<circ> url) ` set xs - insert (url_key (url a)) seen"
        using fresh_keys [of xs "insert (url_key (url a)) seen"] by blast
      then have "url_key (url a) \<noteq> url_key (url x)" by auto
      with Cons.IH [OF x] show ?thesis by simp
    qed
  qed
qed

lemma distinct_key_once:
  "distinct (map f xs) \<Longrightarrow> x \<in> set xs \<Longrightarrow> length (filter (\<lambda>y. f y = f x) xs) = 1"
proof (induction xs)
  case Nil
  then show ?case by simp
next
  case (Cons a xs)
  show ?case
  proof (cases "f a = f x")
    case True
    with Cons.prems have "f x \<notin> f ` set xs" by simp
    then have "\<forall>y\<in>set xs. f y \<noteq> f x" by (metis imageI)
    then have "filter (\<lambda>y. f y = f x) xs = []" by (simp add: filter_empty_conv)
    with True show ?thesis by simp
  next
    case False
    with Cons show ?thesis by auto
  qed
qed

lemma url_key_slash: "url_key (u @ ''/'') = url_key u"
  by (simp add: url_key_def lower_def rstrip_chars_def py_lower_char_def)

lemma query_items_all:
  assumes "\<And>ovw j ref it. normalize_ref netloc ovw j ref = Inr (Some it) \<Longrightarrow> P it"
  shows "list_all P (query_items call_api netloc q)"
proof (cases "run_query call_api netloc q")
  case (Inl e)
  then show ?thesis by (simp add: query_items_def)
next
  case (Inr r)
  obtain its ov where r: "r = (its, ov)" by (cases r)
  from Inr r obtain resp where "normalize_results netloc resp = Inr (its, ov)"
    by (auto simp: run_query_def split: sum.splits)
  from normalize_results_items [OF this assms] Inr r show ?thesis
    by (simp add: query_items_def)
qed

lemma search_web_all:
  assumes "\<And>ovw j ref it. normalize_ref netloc ovw j ref = Inr (Some it) \<Longrightarrow> P it"
  shows "list_all P (fst (search_web call_api netloc topic depth))"
proof -
  let ?ls = "map (query_items call_api netloc) (build_structured_queries topic depth)"
  have "\<forall>l\<in>set ?ls. list_all P l"
    using query_items_all [of netloc P call_api] assms by auto
  then have "list_all P (concat ?ls)" by (auto simp: list_all_iff)
  moreover have "set (merged_items ?ls) \<subseteq> set (concat ?ls)"
    unfolding merged_items_fresh by (rule fresh_subset)
  ultimately show ?thesis by (auto simp: search_web_items list_all_iff)
qed

lemma normalize_ref_no_url:
  "\<not> truthy_opt (get_field (ref_url ref) (Some [])) \<Longrightarrow> normalize_ref netloc ov i ref = Inr None"
  by (simp add: normalize_ref_def truthy_opt_def split: option.splits)

lemma normalize_ref_no_text:
  assumes "py_strip (get_field (ref_title ref) (Some [])) = Inr []"
    and "py_strip (get_field (ref_text ref) (get_field (ref_snippet ref) (Some []))) = Inr []"
  shows "normalize_ref netloc ov i ref = Inr None"
  using assms by (simp add: normalize_ref_def truthy_def split: option.splits)

lemma normalize_ref_excluded:
  assumes "ref_url ref = Str u" "netloc u = Some n" "lower n \<in> EXCLUDED_DOMAINS"
  shows "normalize_ref netloc ov i ref = Inr None"
  using assms by (simp add: normalize_ref_def resolve_domain_def Let_def)

lemma sample_normalized:
  "normalize_results sample_netloc (sample_response sample_refs_1) =
     Inr ([\<lparr>item_id = ''D3'', title = ''BikeRadar buying guide'',
             url = ''https://www.BikeRadar.com/Guide/'',
             source_domain = Some ''bikeradar.com'', snippet = [], date = None,
             date_confidence = ''low'', relevance = 0.75, why_relevant = []\<rparr>,
            \<lparr>item_id = ''D4'', title = ''First title'',
             url = ''https://example.com/e-bikes'',
             source_domain = Some ''example.com'', snippet = ''first snippet'',
             date = None, date_confidence = ''low'', relevance = 0.75,
             why_relevant = []\<rparr>],
           ''E-bikes are booming. BikeRadar recommends checking motor wattage.'')"
  by code_simp

text \<open>
  Claim C7. Every item the normalizer of the overview source returns, and so every item
  \<open>search_web\<close> returns, has a non-empty url and a non-empty title or snippet. A
  reference whose url is absent, null or empty gives no item, and neither does a
  reference whose title and snippet are both empty once stripped.
\<close>

theorem normalized_items_ok:
  "(normalize_results netloc resp = Inr (items, ov) \<longrightarrow> list_all item_ok items)
   \<and> list_all item_ok (fst (search_web call_api netloc topic depth))
   \<and> (\<not> truthy_opt (get_field (ref_url ref) (Some []))
        \<longrightarrow> normalize_ref netloc ov' i ref = Inr None)
   \<and> (py_strip (get_field (ref_title ref') (Some [])) = Inr []
        \<and> py_strip (get_field (ref_text ref') (get_field (ref_snippet ref') (Some []))) = Inr []
        \<longrightarrow> normalize_ref netloc ov' i ref' = Inr None)"
proof -
  have ok: "item_ok it" if "normalize_ref netloc ovw j r = Inr (Some it)" for ovw j r it
    using normalize_ref_item [OF that] by simp
  have a: "normalize_results netloc resp = Inr (items, ov) \<longrightarrow> list_all item_ok items"
    using normalize_results_items [of netloc resp items ov item_ok] ok by blast
  have b: "list_all item_ok (fst (search_web call_api netloc topic depth))"
    using search_web_all [of netloc item_ok] ok by blast
  from a b show ?thesis
    using normalize_ref_no_url [of ref netloc ov' i] normalize_ref_no_text [of ref' netloc ov' i]
    by blast
qed

text \<open>
  A response with four references: the one without title and snippet and the one from
  reddit give no item, and the two items returned satisfy the invariant.
\<close>

theorem normalized_items_ok_witness:
  "normalize_results sample_netloc (sample_response sample_refs_1) =
     Inr ([\<lparr>item_id = ''D3'', title = ''BikeRadar buying guide'',
             url = ''https://www.BikeRadar.com/Guide/'',
             source_domain = Some ''bikeradar.com'', snippet = [], date = None,
             date_confidence = ''low'', relevance = 0.75, why_relevant = []\<rparr>,
            \<lparr>item_id = ''D4'', title = ''First title'',
             url = ''https://example.com/e-bikes'',
             source_domain = Some ''example.com'', snippet = ''first snippet'',
             date = None, date_confidence = ''low'', relevance = 0.75,
             why_relevant = []\<rparr>],
           ''E-bikes are booming. BikeRadar recommends checking motor wattage.'')
   \<and> list_all item_ok
        [\<lparr>item_id = ''D3'', title = ''BikeRadar buying guide'',
             url = ''https://www.BikeRadar.com/Guide/'',
             source_domain = Some ''bikeradar.com'', snippet = [], date = None,
             date_confidence = ''low'', relevance = 0.75, why_relevant = []\<rparr>,
            \<lparr>item_id = ''D4'', title = ''First title'',
             url = ''https://example.com/e-bikes'',
             source_domain = Some ''example.com'', snippet = ''first snippet'',
             date = None, date_confidence = ''low'', relevance = 0.75,
             why_relevant = []\<rparr>]
   \<and> \<not> truthy_opt (get_field (ref_url (sample_ref [] (Str ''A title'') Absent)) (Some []))
   \<and> normalize_ref sample_netloc ''An overview.'' 0 (sample_ref [] (Str ''A title'') Absent)
       = Inr None
   \<and> py_strip (get_field (ref_title (sample_ref ''https://Example.com/E-Bikes/'' Absent Absent))
        (Some [])) = Inr []
   \<and> py_strip (get_field (ref_text (sample_ref ''https://Example.com/E-Bikes/'' Absent Absent))
        (get_field (ref_snippet (sample_ref ''https://Example.com/E-Bikes/'' Absent Absent))
           (Some []))) = Inr []
   \<and> normalize_ref sample_netloc ''An overview.'' 0
        (sample_ref ''https://Example.com/E-Bikes/'' Absent Absent) = Inr None"
proof -
  note t = normalized_items_ok
    [where netloc = sample_netloc and resp = "sample_response sample_refs_1"
       and ref = "sample_ref [] (Str ''A title'') Absent"
       and ref' = "sample_ref ''https://Example.com/E-Bikes/'' Absent Absent"
       and ov' = "''An overview.''" and i = 0]
  have h1: "\<not> truthy_opt (get_field (ref_url (sample_ref [] (Str ''A title'') Absent)) (Some []))"
    by (simp add: sample_ref_def truthy_opt_def truthy_def)
  have h2: "py_strip (get_field (ref_title (sample_ref ''https://Example.com/E-Bikes/'' Absent Absent))
        (Some [])) = Inr []"
    by (simp add: sample_ref_def py_strip_def strip_def rstrip_def lstrip_def)
  have h3: "py_strip (get_field (ref_text (sample_ref ''https://Example.com/E-Bikes/'' Absent Absent))
        (get_field (ref_snippet (sample_ref ''https://Example.com/E-Bikes/'' Absent Absent))
           (Some []))) = Inr []"
    by (simp add: sample_ref_def py_strip_def strip_def rstrip_def lstrip_def)
  from t sample_normalized h1 h2 h3 show ?thesis by blast
qed

text \<open>
  Claim C9. A reference whose url parses to a network location that is, in lower case,
  a member of the excluded set gives no item; no item of the normalizer or of
  \<open>search_web\<close> has such a url. The set holds reddit.com, twitter.com and x.com both
  bare and with the prefix www.
\<close>

theorem excluded_domains_dropped:
  "(ref_url ref = Str u \<and> netloc u = Some n \<and> lower n \<in> EXCLUDED_DOMAINS
        \<longrightarrow> normalize_ref netloc ov i ref = Inr None)
   \<and> (normalize_results netloc resp = Inr (items, ov') \<longrightarrow> list_all (not_excluded netloc) items)
   \<and> list_all (not_excluded netloc) (fst (search_web call_api netloc topic depth))
   \<and> (\<forall>d\<in>{''reddit.com'', ''twitter.com'', ''x.com''}.
         d \<in> EXCLUDED_DOMAINS \<and> ''www.'' @ d \<in> EXCLUDED_DOMAINS)"
proof -
  have ne: "not_excluded netloc it" if "normalize_ref netloc ovw j r = Inr (Some it)" for ovw j r it
    using normalize_ref_item [OF that] by simp
  have a: "normalize_results netloc resp = Inr (items, ov') \<longrightarrow> list_all (not_excluded netloc) items"
    using normalize_results_items [of netloc resp items ov' "not_excluded netloc"] ne by blast
  have b: "list_all (not_excluded netloc) (fst (search_web call_api netloc topic depth))"
    using search_web_all [of netloc "not_excluded netloc"] ne by blast
  have c: "\<forall>d\<in>{''reddit.com'', ''twitter.com'', ''x.com''}.
         d \<in> EXCLUDED_DOMAINS \<and> ''www.'' @ d \<in> EXCLUDED_DOMAINS"
    by (simp add: EXCLUDED_DOMAINS_def)
  from a b c show ?thesis
    using normalize_ref_excluded [of ref u netloc n ov i] by blast
qed

text \<open>A reddit url in mixed case, and the two forms of x.com.\<close>

theorem excluded_domains_dropped_witness:
  "ref_url (sample_ref ''https://WWW.Reddit.com/r/ebikes'' (Str ''Best Electric Bikes 2026'') Absent)
     = Str ''https://WWW.Reddit.com/r/ebikes''
   \<and> sample_netloc ''https://WWW.Reddit.com/r/ebikes'' = Some ''WWW.Reddit.com''
   \<and> lower ''WWW.Reddit.com'' \<in> EXCLUDED_DOMAINS
   \<and> normalize_ref sample_netloc ''An overview.'' 1
        (sample_ref ''https://WWW.Reddit.com/r/ebikes'' (Str ''Best Electric Bikes 2026'') Absent)
       = Inr None
   \<and> ''x.com'' \<in> {''reddit.com'', ''twitter.com'', ''x.com''}
   \<and> ''x.com'' \<in> EXCLUDED_DOMAINS \<and> ''www.'' @ ''x.com'' \<in> EXCLUDED_DOMAINS"
proof -
  note t = excluded_domains_dropped
    [where netloc = sample_netloc and u = "''https://WWW.Reddit.com/r/ebikes''"
       and n = "''WWW.Reddit.com''" and ov = "''An overview.''" and i = 1
       and ref = "sample_ref ''https://WWW.Reddit.com/r/ebikes'' (Str ''Best Electric Bikes 2026'') Absent"]
  have h1: "ref_url (sample_ref ''https://WWW.Reddit.com/r/ebikes'' (Str ''Best Electric Bikes 2026'') Absent)
     = Str ''https://WWW.Reddit.com/r/ebikes''"
    by (simp add: sample_ref_def)
  have h2: "sample_netloc ''https://WWW.Reddit.com/r/ebikes'' = Some ''WWW.Reddit.com''"
    by (simp add: sample_netloc_def)
  have h3: "lower ''WWW.Reddit.com'' \<in> EXCLUDED_DOMAINS"
    by (simp add: lower_def py_lower_char_def EXCLUDED_DOMAINS_def)
  have h4: "''x.com'' \<in> {''reddit.com'', ''twitter.com'', ''x.com''}" by simp
  from t h1 h2 h3 h4 show ?thesis by blast
qed

lemma letter_pair_lower: "(a, b) \<in> set letter_pairs \<Longrightarrow> py_lower_char a = b \<and> py_lower_char b = b"
  by (auto simp: letter_pairs_def py_lower_char_def)

lemma case_variant_lower: "case_variant a b \<Longrightarrow> py_lower_char a = py_lower_char b"
  unfolding case_variant_def using letter_pair_lower by metis

lemma differ_by_case_lower: "differ_by_case u v \<Longrightarrow> lower u = lower v"
  unfolding differ_by_case_def lower_def
  by (induction u v rule: list_all2_induct) (simp_all add: case_variant_lower)

lemma rstrip_chars_split:
  "\<exists>n. s = rstrip_chars [c] s @ replicate n c"
proof -
  let ?t = "takeWhile (\<lambda>x. x \<in> set [c]) (rev s)" and ?d = "dropWhile (\<lambda>x. x \<in> set [c]) (rev s)"
  have "rev s = ?t @ ?d" by simp
  then have "s = rev ?d @ rev ?t" by (metis rev_append rev_rev_ident)
  moreover have "rev ?t = replicate (length ?t) c"
    by (rule replicate_eqI) (auto dest: set_takeWhileD)
  ultimately have "s = rstrip_chars [c] s @ replicate (length ?t) c"
    by (simp add: rstrip_chars_def)
  then show ?thesis by blast
qed

lemma rstrip_chars_last:
  "rstrip_chars [c] s = [] \<or> last (rstrip_chars [c] s) \<noteq> c"
proof (cases "dropWhile (\<lambda>x. x \<in> set [c]) (rev s) = []")
  case True
  then show ?thesis by (simp add: rstrip_chars_def)
next
  case False
  from hd_dropWhile [OF False] have "hd (dropWhile (\<lambda>x. x \<in> set [c]) (rev s)) \<noteq> c" by simp
  with False show ?thesis by (simp add: rstrip_chars_def last_rev)
qed

lemma url_key_explicit: "url_key u = rstrip_chars ''/'' (lower u)"
  by (simp add: url_key_def)

text \<open>
  Claim C2. For every sequence of per-query item lists, with the key of an item being
  its url in lower case with the trailing slashes stripped: the merged list has
  pairwise distinct keys, is a subsequence of the lists in query order, covers every
  key that occurs, and holds for each key the first item with that key; so each item of
  the input has exactly one entry with its key in the merged list, and two items with
  different keys have two different entries. \<open>search_web\<close> returns the merged list of
  the items of its queries. Urls that differ by one trailing slash or by case only have
  the same key; the key is the url in lower case up to its trailing slashes, and does
  not end in a slash.
\<close>

theorem merged_items_first_wins:
  "distinct (map (\<lambda>x. rstrip_chars ''/'' (lower (url x))) (merged_items item_lists))
   \<and> subseq (merged_items item_lists) (concat item_lists)
   \<and> (\<lambda>x. rstrip_chars ''/'' (lower (url x))) ` set (merged_items item_lists)
       = (\<lambda>x. rstrip_chars ''/'' (lower (url x))) ` set (concat item_lists)
   \<and> (\<forall>x\<in>set (merged_items item_lists).
         find (\<lambda>y. rstrip_chars ''/'' (lower (url y)) = rstrip_chars ''/'' (lower (url x)))
           (concat item_lists) = Some x)
   \<and> (\<forall>x\<in>set (concat item_lists).
         length (filter (\<lambda>y. rstrip_chars ''/'' (lower (url y))
                              = rstrip_chars ''/'' (lower (url x)))
                   (merged_items item_lists)) = 1)
   \<and> (\<forall>x\<in>set (concat item_lists). \<forall>y\<in>set (concat item_lists).
         rstrip_chars ''/'' (lower (url x)) \<noteq> rstrip_chars ''/'' (lower (url y)) \<longrightarrow>
         (\<exists>x'\<in>set (merged_items item_lists). \<exists>y'\<in>set (merged_items item_lists).
            x' \<noteq> y'
            \<and> rstrip_chars ''/'' (lower (url x')) = rstrip_chars ''/'' (lower (url x))
            \<and> rstrip_chars ''/'' (lower (url y')) = rstrip_chars ''/'' (lower (url y))))
   \<and> fst (search_web call_api netloc topic depth)
       = merged_items (map (query_items call_api netloc) (build_structured_queries topic depth))
   \<and> rstrip_chars ''/'' (lower (u @ ''/'')) = rstrip_chars ''/'' (lower u)
   \<and> (differ_by_case u v \<longrightarrow> rstrip_chars ''/'' (lower u) = rstrip_chars ''/'' (lower v))
   \<and> (\<exists>n. lower u = rstrip_chars ''/'' (lower u) @ replicate n CHR ''/'')
   \<and> (rstrip_chars ''/'' (lower u) = [] \<or> last (rstrip_chars ''/'' (lower u)) \<noteq> CHR ''/'')
   \<and> length (lower u) = length u"
proof -
  let ?m = "merged_items item_lists" and ?c = "concat item_lists"
  let ?k = "\<lambda>x. rstrip_chars ''/'' (lower (url x))"
  have ke: "url_key \<circ> url = ?k" by (simp add: fun_eq_iff url_key_explicit)
  have m: "?m = fresh ?c {}" by (rule merged_items_fresh)
  have d: "distinct (map ?k ?m)" unfolding m ke [symmetric] by (rule fresh_distinct)
  have s: "subseq ?m ?c" unfolding m by (rule fresh_subseq)
  have k: "?k ` set ?m = ?k ` set ?c"
    unfolding m ke [symmetric] using fresh_keys [of ?c "{}"] by (simp only: Diff_empty)
  have f: "\<forall>x\<in>set ?m. find (\<lambda>y. ?k y = ?k x) ?c = Some x"
  proof
    fix x assume "x \<in> set ?m"
    then have "find (\<lambda>y. url_key (url y) = url_key (url x)) ?c = Some x"
      unfolding m by (rule fresh_first)
    then show "find (\<lambda>y. ?k y = ?k x) ?c = Some x" by (simp only: url_key_explicit)
  qed
  have o: "\<forall>x\<in>set ?c. length (filter (\<lambda>y. ?k y = ?k x) ?m) = 1"
  proof
    fix x assume "x \<in> set ?c"
    then have "?k x \<in> ?k ` set ?m" unfolding k by (rule imageI)
    then obtain z where z: "z \<in> set ?m" "?k z = ?k x" by auto
    from distinct_key_once [OF d z(1)] z(2)
    show "length (filter (\<lambda>y. ?k y = ?k x) ?m) = 1" by simp
  qed
  have b: "\<forall>x\<in>set ?c. \<forall>y\<in>set ?c. ?k x \<noteq> ?k y \<longrightarrow>
         (\<exists>x'\<in>set ?m. \<exists>y'\<in>set ?m. x' \<noteq> y' \<and> ?k x' = ?k x \<and> ?k y' = ?k y)"
  proof (intro ballI impI)
    fix x y assume x: "x \<in> set ?c" and y: "y \<in> set ?c" and ne: "?k x \<noteq> ?k y"
    from x have "?k x \<in> ?k ` set ?m" unfolding k by (rule imageI)
    then obtain x' where x': "x' \<in> set ?m" "?k x' = ?k x" by auto
    from y have "?k y \<in> ?k ` set ?m" unfolding k by (rule imageI)
    then obtain y' where y': "y' \<in> set ?m" "?k y' = ?k y" by auto
    from x' y' ne have "x' \<noteq> y'" by auto
    with x' y' show "\<exists>x'\<in>set ?m. \<exists>y'\<in>set ?m. x' \<noteq> y' \<and> ?k x' = ?k x \<and> ?k y' = ?k y"
      by blast
  qed
  have w: "fst (search_web call_api netloc topic depth)
       = merged_items (map (query_items call_api netloc) (build_structured_queries topic depth))"
    by (rule search_web_items)
  have sl: "rstrip_chars ''/'' (lower (u @ ''/'')) = rstrip_chars ''/'' (lower u)"
    using url_key_slash [of u] by (simp only: url_key_explicit)
  have cs: "differ_by_case u v \<longrightarrow> rstrip_chars ''/'' (lower u) = rstrip_chars ''/'' (lower v)"
    by (auto dest: differ_by_case_lower)
  have sp: "\<exists>n. lower u = rstrip_chars ''/'' (lower u) @ replicate n CHR ''/''"
    by (rule rstrip_chars_split)
  have la: "rstrip_chars ''/'' (lower u) = [] \<or> last (rstrip_chars ''/'' (lower u)) \<noteq> CHR ''/''"
    by (rule rstrip_chars_last)
  have le: "length (lower u) = length u" by (simp add: lower_def)
  show ?thesis
    by (intro conjI) (rule d s k f o b w sl cs sp la le)+
qed

lemma sample_merged:
  "merged_items sample_lists =
     [sample_item ''1'' ''https://Example.com/E-Bikes/'' ''First title'' ''first snippet'',
      sample_item ''2'' ''https://cyclingweekly.com/news'' ''News'' []]"
  by (simp add: merged_items_def sample_lists_def sample_item_def url_key_def lower_def
      py_lower_char_def rstrip_chars_def)

text \<open>
  Two queries whose first urls differ by case and the trailing slash: the first title
  and snippet stay, the second item is dropped.
\<close>

theorem merged_items_first_wins_witness:
  "sample_item ''1'' ''https://Example.com/E-Bikes/'' ''First title'' ''first snippet''
     \<in> set (merged_items sample_lists)
   \<and> find (\<lambda>y. rstrip_chars ''/'' (lower (url y))
         = rstrip_chars ''/'' (lower (url (sample_item ''1'' ''https://Example.com/E-Bikes/''
                                              ''First title'' ''first snippet''))))
        (concat sample_lists)
       = Some (sample_item ''1'' ''https://Example.com/E-Bikes/'' ''First title'' ''first snippet'')
   \<and> sample_item ''1'' ''https://example.com/e-bikes'' ''Second title'' ''second snippet''
     \<in> set (concat sample_lists)
   \<and> length (filter (\<lambda>y. rstrip_chars ''/'' (lower (url y))
         = rstrip_chars ''/'' (lower (url (sample_item ''1'' ''https://example.com/e-bikes''
                                              ''Second title'' ''second snippet''))))
        (merged_items sample_lists)) = 1
   \<and> differ_by_case ''https://Example.com/E-Bikes'' ''https://example.com/e-bikes''
   \<and> rstrip_chars ''/'' (lower ''https://Example.com/E-Bikes'')
       = rstrip_chars ''/'' (lower ''https://example.com/e-bikes'')
   \<and> rstrip_chars ''/'' (lower (''https://Example.com/E-Bikes'' @ ''/''))
       = rstrip_chars ''/'' (lower ''https://Example.com/E-Bikes'')
   \<and> rstrip_chars ''/'' (lower ''https://Example.com/E-Bikes/'') = ''https://example.com/e-bikes''"
proof -
  note t = merged_items_first_wins
    [where item_lists = sample_lists and u = "''https://Example.com/E-Bikes''"
       and v = "''https://example.com/e-bikes''"]
  have h1: "sample_item ''1'' ''https://Example.com/E-Bikes/'' ''First title'' ''first snippet''
     \<in> set (merged_items sample_lists)"
    by (simp add: sample_merged)
  have h2: "sample_item ''1'' ''https://example.com/e-bikes'' ''Second title'' ''second snippet''
     \<in> set (concat sample_lists)"
    by (simp add: sample_lists_def)
  have h3: "differ_by_case ''https://Example.com/E-Bikes'' ''https://example.com/e-bikes''"
    by (simp add: differ_by_case_def case_variant_def letter_pairs_def)
  have h4: "rstrip_chars ''/'' (lower ''https://Example.com/E-Bikes/'') = ''https://example.com/e-bikes''"
    by (simp add: rstrip_chars_def lower_def py_lower_char_def)
  from t h1 h2 h3 h4 show ?thesis by blast
qed

text \<open>Within one list of references the ids are pairwise distinct.\<close>

lemma digit_inj:
  "n < 10 \<Longrightarrow> m < 10 \<Longrightarrow> ''0123456789'' ! n = ''0123456789'' ! m \<Longrightarrow> n = m"
proof -
  assume a: "n < 10" "m < 10" "''0123456789'' ! n = ''0123456789'' ! m"
  have d: "distinct ''0123456789''" by simp
  from a show ?thesis using nth_eq_iff_index_eq [OF d, of n m] by simp
qed

lemma str_nat_nonempty: "str_nat n \<noteq> []"
  by (subst str_nat.simps) simp

lemma str_nat_inj: "str_nat n = str_nat m \<Longrightarrow> n = m"
proof (induction n arbitrary: m rule: less_induct)
  case (less n)
  show ?case
  proof (cases "n < 10")
    case True
    then have n: "str_nat n = [''0123456789'' ! n]" by (subst str_nat.simps) simp
    show ?thesis
    proof (cases "m < 10")
      case m: True
      then have "str_nat m = [''0123456789'' ! m]" by (subst str_nat.simps) simp
      with n less.prems have "''0123456789'' ! n = ''0123456789'' ! m" by simp
      with True m show ?thesis by (rule digit_inj)
    next
      case False
      then have "str_nat m = str_nat (m div 10) @ [''0123456789'' ! (m mod 10)]"
        by (subst str_nat.simps) simp
      with n less.prems have "str_nat (m div 10) = []" by simp
      with str_nat_nonempty show ?thesis by blast
    qed
  next
    case False
    then have n: "str_nat n = str_nat (n div 10) @ [''0123456789'' ! (n mod 10)]"
      by (subst str_nat.simps) simp
    show ?thesis
    proof (cases "m < 10")
      case True
      then have "str_nat m = [''0123456789'' ! m]" by (subst str_nat.simps) simp
      with n less.prems have "str_nat (n div 10) = []" by simp
      with str_nat_nonempty show ?thesis by blast
    next
      case m: False
      then have "str_nat m = str_nat (m div 10) @ [''0123456789'' ! (m mod 10)]"
        by (subst str_nat.simps) simp
      with n less.prems have e: "str_nat (n div 10) = str_nat (m div 10)"
        and d: "''0123456789'' ! (n mod 10) = ''0123456789'' ! (m mod 10)" by simp_all
      from False have "n div 10 < n" by simp
      from less.IH [OF this e] have q: "n div 10 = m div 10" .
      have r: "n mod 10 = m mod 10" by (rule digit_inj [OF _ _ d]) simp_all
      from q r show ?thesis by (metis div_mult_mod_eq)
    qed
  qed
qed

lemma normalize_refs_ids:
  "normalize_refs netloc ov i refs items = Inr items' \<Longrightarrow>
     \<exists>new. items' = items @ new
        \<and> (\<forall>it\<in>set new. \<exists>j\<ge>i. item_id it = ''D'' @ str_nat (j + 1))
        \<and> distinct (map item_id new)"
proof (induction refs arbitrary: i items)
  case Nil
  then show ?case by simp
next
  case (Cons ref refs)
  show ?case
  proof (cases "normalize_ref netloc ov i ref")
    case (Inl e)
    with Cons.prems show ?thesis by simp
  next
    case (Inr r)
    show ?thesis
    proof (cases r)
      case None
      with Inr Cons.prems have "normalize_refs netloc ov (Suc i) refs items = Inr items'" by simp
      from Cons.IH [OF this] obtain new where n: "items' = items @ new"
        "\<forall>it\<in>set new. \<exists>j\<ge>Suc i. item_id it = ''D'' @ str_nat (j + 1)"
        "distinct (map item_id new)" by blast
      from n(2) have "\<forall>it\<in>set new. \<exists>j\<ge>i. item_id it = ''D'' @ str_nat (j + 1)"
        by (meson Suc_leD)
      with n(1,3) show ?thesis by blast
    next
      case (Some it)
      with Inr have id: "item_id it = ''D'' @ str_nat (i + 1)"
        using normalize_ref_item [of netloc ov i ref it] by simp
      from Some Inr Cons.prems
      have "normalize_refs netloc ov (Suc i) refs (items @ [it]) = Inr items'" by simp
      from Cons.IH [OF this] obtain new where n: "items' = (items @ [it]) @ new"
        "\<forall>it\<in>set new. \<exists>j\<ge>Suc i. item_id it = ''D'' @ str_nat (j + 1)"
        "distinct (map item_id new)" by blast
      have fresh: "item_id it \<notin> item_id ` set new"
      proof
        assume "item_id it \<in> item_id ` set new"
        then obtain x where x: "x \<in> set new" "item_id x = item_id it" by auto
        with n(2) obtain j where j: "Suc i \<le> j" "item_id x = ''D'' @ str_nat (j + 1)" by blast
        with x(2) id have "str_nat (j + 1) = str_nat (i + 1)" by simp
        then have "j + 1 = i + 1" by (rule str_nat_inj)
        with j(1) show False by simp
      qed
      have a: "items' = items @ (it # new)" using n(1) by simp
      have b: "\<forall>x\<in>set (it # new). \<exists>j\<ge>i. item_id x = ''D'' @ str_nat (j + 1)"
        using id n(2) by (auto intro: Suc_leD)
      have c: "distinct (map item_id (it # new))" using fresh n(3) by simp
      from a b c show ?thesis by blast
    qed
  qed
qed

lemma entry_ids_distinct:
  "normalize_refs netloc ov 0 refs [] = Inr items \<Longrightarrow> distinct (map item_id items)"
  using normalize_refs_ids [of netloc ov 0 refs "[]" items] by auto

text \<open>
  Claim C8 (the ids of the items of one call are pairwise distinct) fails on the code:
  the id is the position of the reference in its own entry, and the positions start
  again with each query. At depth default, the sample provider's two answers give two
  items with the id D3.
\<close>

theorem duplicate_ids_across_queries:
  "map item_id (fst (search_web sample_api sample_netloc ''electric bikes'' ''default''))
     = [''D3'', ''D4'', ''D2'', ''D3'']
   \<and> \<not> distinct (map item_id (fst (search_web sample_api sample_netloc ''electric bikes'' ''default'')))"
proof -
  have e: "map item_id (fst (search_web sample_api sample_netloc ''electric bikes'' ''default''))
     = [''D3'', ''D4'', ''D2'', ''D3'']"
    by code_simp
  show ?thesis unfolding e by simp
qed

subsection \<open>The core subject of a topic\<close>

lemma lower_space: "py_isspace (py_lower_char c) = py_isspace c"
  by (cases c) (simp add: py_isspace_def py_lower_char_def Let_def)

lemma rstrip_solid:
  assumes "\<exists>c\<in>set t. \<not> py_isspace c"
  shows "solid (rstrip t)"
proof -
  let ?d = "dropWhile py_isspace (rev t)"
  from assms have ne: "?d \<noteq> []" by (auto simp: dropWhile_eq_Nil_conv)
  then have "\<not> py_isspace (hd ?d)" by (rule hd_dropWhile)
  moreover have "last (rev ?d) = hd ?d" using ne by (simp add: last_rev)
  ultimately show ?thesis using ne by (simp add: solid_def rstrip_def)
qed

lemma lstrip_keeps:
  assumes "\<exists>c\<in>set s. \<not> py_isspace c"
  shows "\<exists>c\<in>set (lstrip s). \<not> py_isspace c"
proof -
  from assms have ne: "dropWhile py_isspace s \<noteq> []" by (auto simp: dropWhile_eq_Nil_conv)
  then have "\<not> py_isspace (hd (dropWhile py_isspace s))" by (rule hd_dropWhile)
  with ne show ?thesis unfolding lstrip_def by (metis hd_in_set)
qed

lemma strip_solid: "\<exists>c\<in>set s. \<not> py_isspace c \<Longrightarrow> solid (strip s)"
  unfolding strip_def by (rule rstrip_solid) (rule lstrip_keeps)

lemma strip_empty: "strip s = [] \<longleftrightarrow> (\<forall>c\<in>set s. py_isspace c)"
proof
  assume "strip s = []"
  show "\<forall>c\<in>set s. py_isspace c"
  proof (rule ccontr)
    assume "\<not> (\<forall>c\<in>set s. py_isspace c)"
    then have "solid (strip s)" using strip_solid by blast
    with \<open>strip s = []\<close> show False by (simp add: solid_def)
  qed
next
  assume "\<forall>c\<in>set s. py_isspace c"
  then have "lstrip s = []" by (simp add: lstrip_def dropWhile_eq_Nil_conv)
  then show "strip s = []" by (simp add: strip_def rstrip_def)
qed

lemma strip_lower_empty: "strip (lower topic) = [] \<longleftrightarrow> strip topic = []"
  by (simp add: strip_empty lower_def lower_space)

lemma solid_has_char: "solid t \<Longrightarrow> \<exists>c\<in>set t. \<not> py_isspace c"
  unfolding solid_def by (metis last_in_set)

lemma strip_prefix_solid:
  assumes "solid text"
  shows "solid (strip_prefix text p)"
proof (cases "startswith text (p @ '' '')")
  case False
  with assms show ?thesis by (simp add: strip_prefix_def)
next
  case True
  then have "length (p @ '' '') \<le> length text"
    unfolding startswith_def by (metis length_take min.cobounded2 min.commute)
  then have lt: "length p < length text" by simp
  then have ne: "drop (length p) text \<noteq> []" by simp
  then have "last (drop (length p) text) = last text" using lt by (simp add: last_drop)
  with assms ne have "solid (drop (length p) text)" by (simp add: solid_def)
  then have "solid (strip (drop (length p) text))"
    by (intro strip_solid solid_has_char)
  with True show ?thesis by (simp add: strip_prefix_def)
qed

lemma foldl_strip_prefix_solid: "solid t \<Longrightarrow> solid (foldl strip_prefix t ps)"
  by (induction ps arbitrary: t) (simp_all add: strip_prefix_solid)

lemma prefix_stripped_solid:
  assumes "strip topic \<noteq> []"
  shows "solid (prefix_stripped topic)"
proof -
  from assms have "strip (lower topic) \<noteq> []" by (simp add: strip_lower_empty)
  then have "\<exists>c\<in>set (lower topic). \<not> py_isspace c" by (simp add: strip_empty)
  then have "solid (strip (lower topic))" by (rule strip_solid)
  then show ?thesis unfolding prefix_stripped_def by (rule foldl_strip_prefix_solid)
qed

lemma rstrip_chars_empty: "rstrip_chars cs s = [] \<longleftrightarrow> set s \<subseteq> set cs"
  by (auto simp: rstrip_chars_def dropWhile_eq_Nil_conv)

lemma rstrip_chars_id: "s \<noteq> [] \<Longrightarrow> last s \<notin> set cs \<Longrightarrow> rstrip_chars cs s = s"
proof -
  assume a: "s \<noteq> []" "last s \<notin> set cs"
  then have "hd (rev s) \<notin> set cs" by (simp add: hd_rev)
  then have "dropWhile (\<lambda>c. c \<in> set cs) (rev s) = rev s"
    using a(1) by (cases "rev s") auto
  then show ?thesis by (simp add: rstrip_chars_def)
qed

lemma last_dropWhile: "dropWhile P xs \<noteq> [] \<Longrightarrow> last (dropWhile P xs) = last xs"
  by (metis last_appendR takeWhile_dropWhile_id)

lemma split_nonempty:
  assumes "\<exists>c\<in>set t. \<not> py_isspace c"
  shows "split t \<noteq> []"
proof -
  from assms have "dropWhile py_isspace t \<noteq> []" by (auto simp: dropWhile_eq_Nil_conv)
  then obtain c cs where "dropWhile py_isspace t = c # cs" by (cases "dropWhile py_isspace t") auto
  then show ?thesis by (subst split.simps) simp
qed

lemma split_empty: "split [] = []"
  by (subst split.simps) simp

lemma split_last: "solid t \<Longrightarrow> split t \<noteq> [] \<and> last (last (split t)) = last t"
proof (induction t rule: split.induct)
  case (1 s)
  from "1.prems" have has: "\<exists>c\<in>set s. \<not> py_isspace c" by (rule solid_has_char)
  then have dne: "dropWhile py_isspace s \<noteq> []" by (auto simp: dropWhile_eq_Nil_conv)
  then obtain c cs where d: "dropWhile py_isspace s = c # cs"
    by (cases "dropWhile py_isspace s") auto
  have c: "\<not> py_isspace c" using hd_dropWhile [OF dne] d by simp
  have ls: "last (c # cs) = last s" using last_dropWhile [OF dne] d by simp
  let ?rest = "dropWhile (\<lambda>x. \<not> py_isspace x) cs"
  have sp: "split s = takeWhile (\<lambda>x. \<not> py_isspace x) (c # cs) # split ?rest"
    using d by (subst split.simps) simp
  show ?case
  proof (cases "?rest = []")
    case True
    then have tk: "takeWhile (\<lambda>x. \<not> py_isspace x) cs = cs"
      by (metis append_Nil2 takeWhile_dropWhile_id)
    have "split ?rest = []" unfolding True by (rule split_empty)
    with sp have "split s = [c # cs]" using c tk by simp
    with ls show ?thesis by simp
  next
    case False
    then have "last ?rest = last cs" by (rule last_dropWhile)
    moreover from False have "cs \<noteq> []" by auto
    ultimately have lr: "last ?rest = last s" using ls by simp
    with False "1.prems" have "solid ?rest" by (simp add: solid_def)
    from "1.IH" [OF d this] lr sp show ?thesis by simp
  qed
qed

lemma noise_word: "w \<in> noise \<Longrightarrow> w \<noteq> [] \<and> last w \<notin> set ''?!.''"
  by (auto simp: noise_def)

lemma prefix_stripped_blank: "strip topic = [] \<Longrightarrow> prefix_stripped topic = []"
proof -
  assume "strip topic = []"
  then have e: "strip (lower topic) = []" by (simp add: strip_lower_empty)
  have "foldl strip_prefix [] ps = []" for ps
    by (induction ps) (simp_all add: strip_prefix_def startswith_def)
  with e show ?thesis by (simp add: prefix_stripped_def)
qed

lemma fallback:
  assumes "filtered_words topic = []"
  shows "extract_core_subject topic = prefix_stripped topic"
proof (cases "strip topic = []")
  case True
  then have "prefix_stripped topic = []" by (rule prefix_stripped_blank)
  with assms show ?thesis by (simp add: extract_core_subject_def rstrip_chars_def)
next
  case False
  then have s: "solid (prefix_stripped topic)" by (rule prefix_stripped_solid)
  let ?t = "prefix_stripped topic"
  from split_last [OF s] have ne: "split ?t \<noteq> []" and l: "last (last (split ?t)) = last ?t"
    by simp_all
  from assms have "\<forall>w\<in>set (split ?t). w \<in> noise"
    by (simp add: filtered_words_def filter_empty_conv)
  with ne have "last (split ?t) \<in> noise" by simp
  then have "last ?t \<notin> set ''?!.''" using noise_word l by metis
  moreover from s have "?t \<noteq> []" by (simp add: solid_def)
  ultimately have "rstrip_chars ''?!.'' ?t = ?t" by (intro rstrip_chars_id)
  with assms show ?thesis by (simp add: extract_core_subject_def)
qed

lemma join_has_sep: "c \<in> set sep \<Longrightarrow> c \<in> set (join sep (w # v # ws))"
  by simp

lemmas string_eval =
  extract_core_subject_def prefix_stripped_def filtered_words_def prefixes_def noise_def
  strip_prefix_def strip_def lstrip_def rstrip_def lower_def py_lower_char_def py_isspace_def
  startswith_def rstrip_chars_def split.simps punctuation_only_def Let_def

text \<open>
  The cleaner returns the empty query for a topic that is a question mark and for a
  blank topic; and where every word is a stoplist word it returns the prefix-stripped
  text in lower case, not the trimmed topic.
\<close>

theorem extract_core_subject_counterexample:
  "extract_core_subject ''?'' = []
   \<and> extract_core_subject ''   '' = []
   \<and> extract_core_subject ''How to best'' = ''best''
   \<and> strip ''How to best'' = ''How to best''"
  by (simp add: string_eval)

text \<open>
  Claim C6, amended. For every topic that has a visible character and whose words left
  after the prefixes and the stoplist are not one word made of the characters ?, ! and
  the full stop only, the cleaner returns a non-empty query. Where the stoplist leaves
  no word, the cleaner returns the text in lower case, trimmed and stripped of the
  prefixes.
\<close>

theorem extract_core_subject_nonempty:
  "(strip topic \<noteq> [] \<and> \<not> punctuation_only (filtered_words topic)
      \<longrightarrow> extract_core_subject topic \<noteq> [])
   \<and> (filtered_words topic = [] \<longrightarrow> extract_core_subject topic = prefix_stripped topic)"
proof (intro conjI impI)
  assume "filtered_words topic = []"
  then show "extract_core_subject topic = prefix_stripped topic" by (rule fallback)
next
  assume a: "strip topic \<noteq> [] \<and> \<not> punctuation_only (filtered_words topic)"
  show "extract_core_subject topic \<noteq> []"
  proof (cases "filtered_words topic")
    case Nil
    from a have "solid (prefix_stripped topic)" by (intro prefix_stripped_solid) simp
    then have "prefix_stripped topic \<noteq> []" by (simp add: solid_def)
    with fallback [OF Nil] show ?thesis by simp
  next
    case (Cons w ws)
    note f = Cons
    show ?thesis
    proof (cases ws)
      case Nil
      with a f have "\<not> set w \<subseteq> set ''?!.''"
        by (auto simp: punctuation_only_def list_all_iff)
      then have "rstrip_chars ''?!.'' w \<noteq> []" by (simp only: rstrip_chars_empty not_False_eq_True)
      with f Nil show ?thesis by (simp add: extract_core_subject_def)
    next
      case (Cons v vs)
      have "CHR '' '' \<in> set (join '' '' (w # v # vs))" by (rule join_has_sep) simp
      then have "\<not> set (join '' '' (w # v # vs)) \<subseteq> set ''?!.''" by auto
      then have "rstrip_chars ''?!.'' (join '' '' (w # v # vs)) \<noteq> []"
        by (simp only: rstrip_chars_empty not_False_eq_True)
      with f Cons show ?thesis by (simp add: extract_core_subject_def)
    qed
  qed
qed

text \<open>The theorem on a question about electric bikes, and on a topic of stoplist words.\<close>

theorem extract_core_subject_nonempty_witness:
  "strip ''What are the best electric bikes?'' \<noteq> []
   \<and> \<not> punctuation_only (filtered_words ''What are the best electric bikes?'')
   \<and> extract_core_subject ''What are the best electric bikes?'' \<noteq> []
   \<and> filtered_words ''How to best'' = []
   \<and> extract_core_subject ''How to best'' = prefix_stripped ''How to best''"
proof -
  have h1: "strip ''What are the best electric bikes?'' \<noteq> []"
    by (simp add: string_eval)
  have h2: "\<not> punctuation_only (filtered_words ''What are the best electric bikes?'')"
    by (simp add: string_eval)
  have h3: "filtered_words ''How to best'' = []"
    by (simp add: string_eval)
  from extract_core_subject_nonempty [of "''What are the best electric bikes?''"]
    extract_core_subject_nonempty [of "''How to best''"] h1 h2 h3
  show ?thesis by blast
qed

lemma core_subject_sample:
  "extract_core_subject ''What are the best electric bikes?'' = ''electric bikes''"
  by (simp add: string_eval)

subsection \<open>The job poller\<close>

lemma polls_allowed_step:
  assumes "0 < iv" "0 < x"
  shows "polls_allowed x iv = Suc (polls_allowed (x - iv) iv)"
proof (cases "x - iv \<le> 0")
  case True
  then have "0 \<le> x - 1" "x - 1 < iv" using assms by auto
  then have "(x - 1) div iv = 0" by simp
  moreover have "(x + iv - 1) div iv = (x - 1) div iv + 1"
    using assms div_add_self2 [of iv "x - 1"] by (simp add: algebra_simps)
  ultimately show ?thesis using True assms by (simp add: polls_allowed_def)
next
  case False
  have "(x + iv - 1) div iv = (x - 1) div iv + 1"
    using assms div_add_self2 [of iv "x - 1"] by (simp add: algebra_simps)
  moreover have "0 \<le> (x - 1) div iv" using assms False by (simp add: pos_imp_zdiv_nonneg_iff)
  ultimately show ?thesis using False assms by (simp add: polls_allowed_def nat_add_distrib)
qed

lemma poll_loop_scan:
  assumes "0 < iv"
  shows "poll_loop poll mw iv e n = Some (scan_polls poll (polls_allowed (mw - e) iv) n)"
proof (induction "polls_allowed (mw - e) iv" arbitrary: e n)
  case 0
  have "\<not> e < mw"
  proof
    assume "e < mw"
    then have "polls_allowed (mw - e) iv = Suc (polls_allowed (mw - e - iv) iv)"
      using polls_allowed_step [OF assms, of "mw - e"] by simp
    with 0 show False by simp
  qed
  then show ?case using 0 [symmetric] by (subst poll_loop.simps) simp
next
  case (Suc m)
  have lt: "e < mw"
  proof (rule ccontr)
    assume "\<not> e < mw"
    then have "polls_allowed (mw - e) iv = 0" by (simp add: polls_allowed_def)
    with Suc(2) show False by simp
  qed
  then have st: "polls_allowed (mw - e) iv = Suc (polls_allowed (mw - (e + iv)) iv)"
    using polls_allowed_step [OF assms, of "mw - e"] by (simp add: algebra_simps)
  with Suc(2) have m: "m = polls_allowed (mw - (e + iv)) iv" by simp
  show ?case
    using lt Suc(1) [OF m, of "Suc n"] st
    by (subst poll_loop.simps) (simp split: option.splits)
qed



lemma poll_outcome_None: "poll_outcome p = None \<longleftrightarrow> \<not> terminal p"
  by (cases p) (simp_all add: poll_outcome_def terminal_def Let_def)

lemma poll_outcome_terminal: "terminal p \<Longrightarrow> poll_outcome p = Some (poll_value p)"
  by (cases p)
     (auto simp: poll_outcome_def terminal_def poll_value_def Let_def get_or_def truthy_def
           split: option.splits)

lemma scan_polls_cases:
  "(\<exists>k<fuel. (\<forall>j<k. \<not> terminal (poll (n + j))) \<and> terminal (poll (n + k))
       \<and> scan_polls poll fuel n = (poll_value (poll (n + k)), Suc (n + k)))
   \<or> ((\<forall>j<fuel. \<not> terminal (poll (n + j))) \<and> scan_polls poll fuel n = (None, n + fuel))"
proof (induction fuel arbitrary: n)
  case 0
  show ?case by simp
next
  case (Suc fuel)
  show ?case
  proof (cases "terminal (poll n)")
    case True
    then have "scan_polls poll (Suc fuel) n = (poll_value (poll n), Suc n)"
      by (simp add: poll_outcome_terminal)
    with True have "\<exists>k<Suc fuel. (\<forall>j<k. \<not> terminal (poll (n + j))) \<and> terminal (poll (n + k))
       \<and> scan_polls poll (Suc fuel) n = (poll_value (poll (n + k)), Suc (n + k))"
      by (intro exI [of _ 0]) simp
    then show ?thesis by blast
  next
    case False
    then have step: "scan_polls poll (Suc fuel) n = scan_polls poll fuel (Suc n)"
      by (simp add: poll_outcome_None [symmetric])
    from Suc [of "Suc n"] show ?thesis
    proof
      assume "\<exists>k<fuel. (\<forall>j<k. \<not> terminal (poll (Suc n + j))) \<and> terminal (poll (Suc n + k))
         \<and> scan_polls poll fuel (Suc n) = (poll_value (poll (Suc n + k)), Suc (Suc n + k))"
      then obtain k where k: "k < fuel" "\<forall>j<k. \<not> terminal (poll (Suc n + j))"
        "terminal (poll (Suc n + k))"
        "scan_polls poll fuel (Suc n) = (poll_value (poll (Suc n + k)), Suc (Suc n + k))"
        by blast
      have "\<forall>j<Suc k. \<not> terminal (poll (n + j))"
      proof (intro allI impI)
        fix j assume "j < Suc k"
        then show "\<not> terminal (poll (n + j))"
          using False k(2) by (cases j) auto
      qed
      with k step have "Suc k < Suc fuel \<and> (\<forall>j<Suc k. \<not> terminal (poll (n + j)))
         \<and> terminal (poll (n + Suc k))
         \<and> scan_polls poll (Suc fuel) n = (poll_value (poll (n + Suc k)), Suc (n + Suc k))"
        by simp
      then show ?thesis by blast
    next
      assume a: "(\<forall>j<fuel. \<not> terminal (poll (Suc n + j)))
         \<and> scan_polls poll fuel (Suc n) = (None, Suc n + fuel)"
      have "\<forall>j<Suc fuel. \<not> terminal (poll (n + j))"
      proof (intro allI impI)
        fix j assume "j < Suc fuel"
        then show "\<not> terminal (poll (n + j))"
          using False a by (cases j) auto
      qed
      with a step show ?thesis by simp
    qed
  qed
qed

text \<open>
  Claim C4. With a positive interval the poller returns, for every sequence of status
  responses. Either some request within the budget is the first terminal one (an
  exception, or the status completed or failed): then no further request is made, and
  the result is the content when that request saw the status completed with non-empty
  content, and null in every other case (completed with empty content, failed, an
  exception). Or no request within the budget is terminal: then the result is null,
  after as many requests as the budget allows.
\<close>

theorem poll_job_result:
  assumes "0 < interval"
  shows "\<exists>r n. poll_job poll max_wait interval = Some (r, n)
           \<and> ((\<exists>k<polls_allowed max_wait interval.
                  (\<forall>j<k. \<not> terminal (poll j)) \<and> terminal (poll k)
                  \<and> r = poll_value (poll k) \<and> n = Suc k)
              \<or> ((\<forall>j<polls_allowed max_wait interval. \<not> terminal (poll j))
                  \<and> r = None \<and> n = polls_allowed max_wait interval))"
proof -
  have eq: "poll_job poll max_wait interval
              = Some (scan_polls poll (polls_allowed max_wait interval) 0)"
    using poll_loop_scan [OF assms, of poll max_wait 0 0] by (simp add: poll_job_def)
  from scan_polls_cases [of "polls_allowed max_wait interval" poll 0] show ?thesis
  proof
    assume "\<exists>k<polls_allowed max_wait interval.
       (\<forall>j<k. \<not> terminal (poll (0 + j))) \<and> terminal (poll (0 + k)) \<and>
       scan_polls poll (polls_allowed max_wait interval) 0 = (poll_value (poll (0 + k)), Suc (0 + k))"
    then show ?thesis unfolding eq by auto
  next
    assume "(\<forall>j<polls_allowed max_wait interval. \<not> terminal (poll (0 + j))) \<and>
       scan_polls poll (polls_allowed max_wait interval) 0 = (None, 0 + polls_allowed max_wait interval)"
    then show ?thesis unfolding eq by auto
  qed
qed

lemma sample_poll_run: "poll_job sample_polls 60 3 = Some (Some ''hello world'', 3)"
  by (simp add: poll_job_def poll_loop.simps [of sample_polls] sample_polls_def
      poll_outcome_def get_or_def truthy_def)

text \<open>The theorem at the default budget and interval, on the sample job.\<close>

theorem poll_job_result_witness:
  "(0::int) < 3
   \<and> (\<exists>r n. poll_job sample_polls 60 3 = Some (r, n)
         \<and> ((\<exists>k<polls_allowed 60 3.
                (\<forall>j<k. \<not> terminal (sample_polls j)) \<and> terminal (sample_polls k)
                \<and> r = poll_value (sample_polls k) \<and> n = Suc k)
            \<or> ((\<forall>j<polls_allowed 60 3. \<not> terminal (sample_polls j))
                \<and> r = None \<and> n = polls_allowed 60 3)))"
proof
  show h: "(0::int) < 3" by simp
  show "\<exists>r n. poll_job sample_polls 60 3 = Some (r, n)
         \<and> ((\<exists>k<polls_allowed 60 3.
                (\<forall>j<k. \<not> terminal (sample_polls j)) \<and> terminal (sample_polls k)
                \<and> r = poll_value (sample_polls k) \<and> n = Suc k)
            \<or> ((\<forall>j<polls_allowed 60 3. \<not> terminal (sample_polls j))
                \<and> r = None \<and> n = polls_allowed 60 3))"
    by (rule poll_job_result [OF h])
qed

lemma poll_job_returns: "\<exists>r. poll_job poll 60 3 = Some r"
  using poll_loop_scan [of 3 poll 60 0 0] by (simp add: poll_job_def)

lemma fetch_transcript_returns: "\<exists>r. fetch_transcript http polls u k = Some r"
proof -
  have "\<exists>r. poll_transcript polls j = Some r" for j
    using poll_job_returns [of "polls j"]
    by (auto simp: poll_transcript_def split: option.splits prod.splits)
  then show ?thesis
    by (simp add: fetch_transcript_def Let_def split: http_result.splits)
qed

lemma submitted_fetch_never_raises: "\<not> raising (submitted_fetch http polls k) u"
  using fetch_transcript_returns [of http polls u k]
  by (auto simp: raising_def submitted_fetch_def split: option.splits)

subsection \<open>The parallel fetch coordinators\<close>

lemma update_fresh: "k \<notin> fst ` set al \<Longrightarrow> AList.update k v al = al @ [(k, v)]"
  by (induction al) auto

lemma collect_acc:
  "distinct (map fst acc @ ks) \<Longrightarrow>
     foldl (\<lambda>results k. AList.update k (f k) results) acc ks = acc @ map (\<lambda>k. (k, f k)) ks"
proof (induction ks arbitrary: acc)
  case Nil
  show ?case by simp
next
  case (Cons k ks)
  from Cons.prems have fresh: "k \<notin> fst ` set acc" by auto
  from Cons.prems have "distinct (map fst (acc @ [(k, f k)]) @ ks)" by auto
  from Cons.IH [OF this] show ?case by (simp add: update_fresh [OF fresh])
qed

lemma collect_distinct:
  "distinct completed \<Longrightarrow>
     collect fetch completed = map (\<lambda>k. (k, future_result fetch k)) completed"
  using collect_acc [of "[]" completed "future_result fetch"] by (simp add: collect_def)

lemma completion_set:
  assumes "distinct keys" "is_completion_of completed keys"
  shows "set completed = set keys"
proof -
  from assms(2) have d: "distinct completed" and l: "length completed = length keys"
    and s: "set completed \<subseteq> set keys"
    by (auto simp: is_completion_of_def list_all_iff)
  have "card (set completed) = card (set keys)"
    using d l assms(1) by (simp add: distinct_card)
  with s show ?thesis by (simp add: card_subset_eq)
qed

lemma filter_length_perm:
  assumes "distinct xs" "distinct ys" "set xs = set ys"
  shows "length (filter P xs) = length (filter P ys)"
  using assms by (simp add: distinct_length_filter)

lemma null_count_collect:
  assumes "distinct keys" "is_completion_of completed keys"
  shows "null_count (collect fetch completed)
           = length (filter (\<lambda>k. future_result fetch k = None) keys)"
proof -
  from assms(2) have d: "distinct completed" by (simp add: is_completion_of_def)
  have "null_count (collect fetch completed)
          = length (filter (\<lambda>k. future_result fetch k = None) completed)"
    by (simp add: collect_distinct [OF d] null_count_def filter_map comp_def)
  also have "\<dots> = length (filter (\<lambda>k. future_result fetch k = None) keys)"
    by (rule filter_length_perm [OF d assms(1) completion_set [OF assms]])
  finally show ?thesis .
qed

lemma raising_null: "raising fetch k \<Longrightarrow> future_result fetch k = None"
  by (simp add: raising_def future_result_def split: sum.splits)

lemma raising_le_null:
  "length (filter (raising fetch) keys) \<le> length (filter (\<lambda>k. future_result fetch k = None) keys)"
proof (induction keys)
  case Nil show ?case by simp
next
  case (Cons k ks) then show ?case by (auto dest: raising_null)
qed

lemma raising_eq_null:
  "\<forall>k\<in>set keys. fetch k \<noteq> Inr None \<Longrightarrow>
     filter (\<lambda>k. future_result fetch k = None) keys = filter (raising fetch) keys"
  by (rule filter_cong) (auto simp: raising_def future_result_def split: sum.splits)

text \<open>
  A fetch that returns null without raising: the provider answers 200 with empty
  content. One key, no fetch raises, and the mapping has one null entry; with an empty
  API key the mapping of supadata has no entry at all.
\<close>

theorem coordinator_null_counterexample:
  "fetch_transcripts_batch (submitted_fetch empty_content_http no_polls ''key'')
      [''u1''] ''key'' 3 [''u1''] = Inr [(''u1'', None)]
   \<and> length (filter (raising (submitted_fetch empty_content_http no_polls ''key'')) [''u1'']) = 0
   \<and> null_count [(''u1'', None)] = 1
   \<and> fetch_transcripts_batch (submitted_fetch empty_content_http no_polls [])
        [''u1''] [] 3 [''u1''] = Inr []"
  by (simp add: fetch_transcripts_batch_def run_pool_def collect_def future_result_def
      submitted_fetch_def fetch_transcript_def empty_content_http_def truthy_def get_or_def
      raising_def null_count_def)

text \<open>
  Claim C5, amended. For distinct keys, a positive worker count and (for supadata) a
  non-empty API key, both coordinators return a mapping and raise nothing: it has one
  entry per key, each key mapped to the result of its fetch, or to null where the fetch
  raised. Its null entries are the keys whose fetch raised or returned null: at least
  as many as the fetches that raise, and exactly as many when no fetch returns null.
\<close>

theorem coordinator_collects:
  assumes "distinct keys" "is_completion_of completed keys" "0 < max_workers" "api_key \<noteq> []"
  shows "\<exists>results.
           fetch_transcripts_batch fetch keys api_key max_workers completed = Inr results
         \<and> fetch_transcripts_parallel fetch keys max_workers completed = Inr results
         \<and> length results = length keys
         \<and> distinct (map fst results)
         \<and> set (map fst results) = set keys
         \<and> (\<forall>k\<in>set keys. map_of results k = Some (future_result fetch k))
         \<and> null_count results = length (filter (\<lambda>k. future_result fetch k = None) keys)
         \<and> length (filter (raising fetch) keys) \<le> null_count results
         \<and> ((\<forall>k\<in>set keys. fetch k \<noteq> Inr None)
              \<longrightarrow> null_count results = length (filter (raising fetch) keys))"
proof -
  from assms(2) have d: "distinct completed" and l: "length completed = length keys"
    by (simp_all add: is_completion_of_def)
  have s: "set completed = set keys" by (rule completion_set [OF assms(1,2)])
  let ?r = "collect fetch completed"
  have r: "?r = map (\<lambda>k. (k, future_result fetch k)) completed"
    by (rule collect_distinct [OF d])
  have e: "keys = [] \<Longrightarrow> ?r = []" using l by (simp add: collect_def)
  have b: "fetch_transcripts_batch fetch keys api_key max_workers completed = Inr ?r"
    using assms(3,4) e by (simp add: fetch_transcripts_batch_def run_pool_def truthy_def)
  have p: "fetch_transcripts_parallel fetch keys max_workers completed = Inr ?r"
    using assms(3) e by (simp add: fetch_transcripts_parallel_def run_pool_def)
  have len: "length ?r = length keys" using l by (simp add: r)
  have fst: "map fst ?r = completed" by (simp add: r comp_def)
  have m: "\<forall>k\<in>set keys. map_of ?r k = Some (future_result fetch k)"
    using s by (simp add: r map_of_map_restrict)
  have n: "null_count ?r = length (filter (\<lambda>k. future_result fetch k = None) keys)"
    by (rule null_count_collect [OF assms(1,2)])
  have ge: "length (filter (raising fetch) keys) \<le> null_count ?r"
    unfolding n by (rule raising_le_null)
  have ex: "(\<forall>k\<in>set keys. fetch k \<noteq> Inr None)
              \<longrightarrow> null_count ?r = length (filter (raising fetch) keys)"
    unfolding n by (auto dest: raising_eq_null)
  show ?thesis
    using b p len d s m n ge ex by (intro exI [of _ ?r]) (simp add: fst)
qed

text \<open>Three keys finishing in another order than submitted.\<close>

theorem coordinator_collects_witness:
  "distinct [''u1'', ''u2'', ''u3'']
   \<and> is_completion_of [''u3'', ''u1'', ''u2''] [''u1'', ''u2'', ''u3'']
   \<and> (0::int) < 3 \<and> ''key'' \<noteq> []
   \<and> (\<exists>results.
           fetch_transcripts_batch sample_fetch [''u1'', ''u2'', ''u3''] ''key'' 3
             [''u3'', ''u1'', ''u2''] = Inr results
         \<and> length results = 3 \<and> null_count results = 2)"
proof -
  have h1: "distinct [''u1'', ''u2'', ''u3'']" by simp
  have h2: "is_completion_of [''u3'', ''u1'', ''u2''] [''u1'', ''u2'', ''u3'']"
    by (simp add: is_completion_of_def)
  have h3: "(0::int) < 3" by simp
  have h4: "''key'' \<noteq> []" by simp
  have n: "length (filter (\<lambda>k. future_result sample_fetch k = None) [''u1'', ''u2'', ''u3'']) = 2"
    by (simp add: future_result_def sample_fetch_def)
  from coordinator_collects [OF h1 h2 h3 h4, of sample_fetch]
  obtain results where
    b: "fetch_transcripts_batch sample_fetch [''u1'', ''u2'', ''u3''] ''key'' 3
             [''u3'', ''u1'', ''u2''] = Inr results"
    and l: "length results = length [''u1'', ''u2'', ''u3'']"
    and c: "null_count results
              = length (filter (\<lambda>k. future_result sample_fetch k = None) [''u1'', ''u2'', ''u3''])"
    by blast
  have l3: "length results = 3" unfolding l by simp
  have c2: "null_count results = 2" unfolding c n ..
  from b l3 c2 have "\<exists>results.
           fetch_transcripts_batch sample_fetch [''u1'', ''u2'', ''u3''] ''key'' 3
             [''u3'', ''u1'', ''u2''] = Inr results
         \<and> length results = 3 \<and> null_count results = 2"
    by blast
  with h1 h2 h3 h4 show ?thesis by (intro conjI)
qed

text \<open>
  Claim C10. For every non-empty list of URLs, the batch fetcher of supadata called with
  an empty API key returns the empty mapping, which is not the mapping with one null
  entry per URL.
\<close>

theorem batch_without_key:
  assumes "urls \<noteq> []"
  shows "fetch_transcripts_batch fetch urls [] max_workers completed = Inr []
         \<and> fetch_transcripts_batch fetch urls [] max_workers completed
             \<noteq> Inr (map (\<lambda>u. (u, None)) urls)"
  using assms by (simp add: fetch_transcripts_batch_def truthy_def)

text \<open>Two URLs and the empty key.\<close>

theorem batch_without_key_witness:
  "[''u1'', ''u2''] \<noteq> ([] :: string list)
   \<and> fetch_transcripts_batch (submitted_fetch empty_content_http no_polls [])
        [''u1'', ''u2''] [] 3 [''u2'', ''u1''] = Inr []"
proof -
  have h: "[''u1'', ''u2''] \<noteq> ([] :: string list)" by simp
  from batch_without_key [OF h] have
    "fetch_transcripts_batch (submitted_fetch empty_content_http no_polls [])
        [''u1'', ''u2''] [] 3 [''u2'', ''u1''] = Inr []"
    by (rule conjunct1)
  with h show ?thesis by (rule conjI)
qed

end
